theory Spec2Isabelle
  imports Main "HOL-Library.AList"
begin

section \<open>Max-tree example: canonical max-tree, pruned max-tree, component tree\<close>

text \<open>
  The development embeds the tree code of \<^verbatim>\<open>doc/examples/yy_dev/plot_max_tree.py\<close>:
  the construction of the canonical max-tree graph \<^verbatim>\<open>CMT\<close> (lines 248-252), its copy
  \<^verbatim>\<open>MT\<close> and the calls of \<^verbatim>\<open>prune\<close> and \<^verbatim>\<open>accumulate\<close> (lines 254-261), and the two
  recursive functions themselves (lines 85-106).

  Pixel indices and pixel values are natural numbers (the image is \<^verbatim>\<open>uint8\<close>, the
  indices come from \<^verbatim>\<open>max_tree\<close> and are non-negative). Python exceptions are values of
  the type \<open>error\<close>; unbounded recursion is the value \<open>None\<close> of a fuel-indexed function,
  the fuel being the recursion depth that is available.
\<close>

subsection \<open>Errors, dictionaries, decimal text\<close>

datatype error = IndexError | KeyError

text \<open>
  A Python \<^verbatim>\<open>dict\<close> keeps its keys in insertion order: an assignment to a key that is
  present replaces the value in place, an assignment to a new key appends. This is
  \<open>AList.update\<close> on an association list; reading is \<open>map_of\<close>.
\<close>

type_synonym 'a dict = "(nat \<times> 'a) list"

definition digit :: "nat \<Rightarrow> char" where
  "digit d = ''0123456789'' ! d"

text \<open>\<^verbatim>\<open>str(node)\<close> and \<^verbatim>\<open>'%i' % p\<close> on a non-negative integer: its decimal numeral.\<close>

fun str :: "nat \<Rightarrow> string" where
  "str n = (if n < 10 then [digit n] else str (n div 10) @ [digit (n mod 10)])"

declare str.simps [simp del]

text \<open>
  The labels the code builds are texts of the form \<^verbatim>\<open>"5, 0, 1"\<close>. The pixel indices
  such a text lists are read back by \<open>idxs\<close>: a comma ends a numeral, blanks are skipped.
\<close>

fun idxs_from :: "nat \<Rightarrow> string \<Rightarrow> nat list" where
  "idxs_from acc [] = [acc]"
| "idxs_from acc (c # cs) =
     (if c = CHR '','' then acc # idxs_from 0 cs
      else if c = CHR '' '' then idxs_from acc cs
      else idxs_from (10 * acc + (of_char c - 48)) cs)"

definition idxs :: "string \<Rightarrow> nat list" where
  "idxs s = idxs_from 0 s"

subsection \<open>The directed graph of networkx\<close>

text \<open>
  \<^verbatim>\<open>nx.DiGraph\<close> is a library class outside the repository. Its state is modelled by the
  node dictionary (node, attribute dictionary) and the edges, both in insertion order;
  the attribute dictionary of a node has the two keys the example uses, \<^verbatim>\<open>'value'\<close> and
  \<^verbatim>\<open>'label'\<close>, each present or absent. \<^verbatim>\<open>G.predecessors(n)\<close> iterates over the sources of
  the edges into \<^verbatim>\<open>n\<close> in the order in which these edges were inserted.
\<close>

record attrs =
  val :: "nat option"
  label :: "string option"

record digraph =
  nodes :: "(nat \<times> attrs) list"
  edges :: "(nat \<times> nat) list"

definition empty_graph :: digraph where
  "empty_graph = \<lparr>nodes = [], edges = []\<rparr>"

definition has_node :: "digraph \<Rightarrow> nat \<Rightarrow> bool" where
  "has_node G n = (n \<in> fst ` set (nodes G))"

text \<open>\<^verbatim>\<open>G.nodes[n]\<close>: the attribute dictionary of a node, \<open>None\<close> where Python raises KeyError.\<close>

definition node_attrs :: "digraph \<Rightarrow> nat \<Rightarrow> attrs option" where
  "node_attrs G n = map_of (nodes G) n"

definition add_node :: "nat \<Rightarrow> digraph \<Rightarrow> digraph" where
  "add_node n G =
     (if has_node G n then G
      else G\<lparr>nodes := nodes G @ [(n, \<lparr>val = None, label = None\<rparr>)]\<rparr>)"

definition add_nodes_from :: "nat list \<Rightarrow> digraph \<Rightarrow> digraph" where
  "add_nodes_from ns G = fold add_node ns G"

text \<open>\<^verbatim>\<open>add_edges_from\<close> adds the end points of an edge when they are missing.\<close>

definition add_edge :: "nat \<times> nat \<Rightarrow> digraph \<Rightarrow> digraph" where
  "add_edge e G =
     (let G1 = add_node (snd e) (add_node (fst e) G)
      in if e \<in> set (edges G1) then G1 else G1\<lparr>edges := edges G1 @ [e]\<rparr>)"

definition add_edges_from :: "(nat \<times> nat) list \<Rightarrow> digraph \<Rightarrow> digraph" where
  "add_edges_from es G = fold add_edge es G"

definition set_val :: "nat \<Rightarrow> nat \<Rightarrow> digraph \<Rightarrow> digraph" where
  "set_val n x G =
     G\<lparr>nodes := map (\<lambda>(m, a). if m = n then (m, a\<lparr>val := Some x\<rparr>) else (m, a)) (nodes G)\<rparr>"

definition set_label :: "nat \<Rightarrow> string \<Rightarrow> digraph \<Rightarrow> digraph" where
  "set_label n s G =
     G\<lparr>nodes := map (\<lambda>(m, a). if m = n then (m, a\<lparr>label := Some s\<rparr>) else (m, a)) (nodes G)\<rparr>"

definition predecessors :: "digraph \<Rightarrow> nat \<Rightarrow> nat list" where
  "predecessors G n = map fst (filter (\<lambda>e. snd e = n) (edges G))"

definition successors :: "digraph \<Rightarrow> nat \<Rightarrow> nat list" where
  "successors G n = map snd (filter (\<lambda>e. fst e = n) (edges G))"

text \<open>\<^verbatim>\<open>G.remove_node(n)\<close> removes the node and every edge that starts or ends at it.\<close>

definition remove_node :: "nat \<Rightarrow> digraph \<Rightarrow> digraph" where
  "remove_node n G =
     \<lparr>nodes = filter (\<lambda>p. fst p \<noteq> n) (nodes G),
      edges = filter (\<lambda>e. fst e \<noteq> n \<and> snd e \<noteq> n) (edges G)\<rparr>"

text \<open>
  \<^verbatim>\<open>nx.DiGraph(G)\<close> builds a new graph object: the nodes of \<^verbatim>\<open>G\<close> in their order, each
  with a fresh copy of its attribute dictionary, and the edges re-inserted source by
  source in node order.
\<close>

definition copy_graph :: "digraph \<Rightarrow> digraph" where
  "copy_graph G =
     \<lparr>nodes = nodes G,
      edges = concat (map (\<lambda>u. map (Pair u) (successors G u)) (map fst (nodes G)))\<rparr>"

subsection \<open>The canonical max-tree graph (lines 248-252)\<close>

text \<open>
  \<^verbatim>\<open>
  CMT = nx.DiGraph()
  CMT.add_nodes_from(S)
  for node in CMT.nodes():
      CMT.nodes[node]['value'] = image_rav[node]
  CMT.add_edges_from([(n, P_rav[n]) for n in S[1:]])
  \<close>
  The arrays \<^verbatim>\<open>image_rav\<close>, \<^verbatim>\<open>P_rav\<close> and \<^verbatim>\<open>S\<close> are parameters. Reading an array out of
  range raises IndexError. Nothing else can fail: the code validates nothing.
\<close>

definition build :: "nat list \<Rightarrow> nat list \<Rightarrow> nat list \<Rightarrow> error + digraph" where
  "build image_rav P_rav S =
     (let G = add_nodes_from S empty_graph
      in if \<exists>n \<in> set S. length image_rav \<le> n then Inl IndexError
         else
           let G1 = fold (\<lambda>n. set_val n (image_rav ! n)) (map fst (nodes G)) G
           in if \<exists>n \<in> set (tl S). length P_rav \<le> n then Inl IndexError
              else Inr (add_edges_from (map (\<lambda>n. (n, P_rav ! n)) (tl S)) G1))"

text \<open>The array reads of the five lines stay in range.\<close>

definition indices_ok :: "nat list \<Rightarrow> nat list \<Rightarrow> nat list \<Rightarrow> bool" where
  "indices_ok image_rav P_rav S =
     ((\<forall>n \<in> set S. n < length image_rav) \<and> (\<forall>n \<in> set (tl S). n < length P_rav))"

subsection \<open>prune (lines 85-96)\<close>

text \<open>
  \<^verbatim>\<open>
  def prune(G, node, res):
      value = G.nodes[node]['value']
      res[node] = str(node)
      preds = [p for p in G.predecessors(node)]
      for p in preds:
          if (G.nodes[p]['value'] == value):
              res[node] += ', %i' % p
              G.remove_node(p)
          else:
              prune(G, p, res)
      G.nodes[node]['label'] = res[node]
      return
  \<close>
  The graph and the dictionary are mutated in place; the model passes both through.
  \<open>prune_loop\<close> is the \<^verbatim>\<open>for\<close> loop over the snapshot \<^verbatim>\<open>preds\<close>, with the recursive call as
  its first argument.
\<close>

type_synonym prune_result = "(error + digraph \<times> string dict) option"

fun prune_loop ::
  "(digraph \<Rightarrow> nat \<Rightarrow> string dict \<Rightarrow> prune_result) \<Rightarrow> nat \<Rightarrow> nat \<Rightarrow> nat list \<Rightarrow>
     digraph \<Rightarrow> string dict \<Rightarrow> prune_result" where
  "prune_loop rec v node [] G res = Some (Inr (G, res))"
| "prune_loop rec v node (p # ps) G res =
     (case node_attrs G p of
        None \<Rightarrow> Some (Inl KeyError)
      | Some a \<Rightarrow>
          (case val a of
             None \<Rightarrow> Some (Inl KeyError)
           | Some vp \<Rightarrow>
               if vp = v then
                 (case map_of res node of
                    None \<Rightarrow> Some (Inl KeyError)
                  | Some s \<Rightarrow>
                      prune_loop rec v node ps (remove_node p G)
                        (AList.update node (s @ '', '' @ str p) res))
               else
                 (case rec G p res of
                    None \<Rightarrow> None
                  | Some (Inl e) \<Rightarrow> Some (Inl e)
                  | Some (Inr (G1, res1)) \<Rightarrow> prune_loop rec v node ps G1 res1)))"

fun prune :: "nat \<Rightarrow> digraph \<Rightarrow> nat \<Rightarrow> string dict \<Rightarrow> prune_result" where
  "prune 0 G node res = None"
| "prune (Suc d) G node res =
     (case node_attrs G node of
        None \<Rightarrow> Some (Inl KeyError)
      | Some a \<Rightarrow>
          (case val a of
             None \<Rightarrow> Some (Inl KeyError)
           | Some v \<Rightarrow>
               (case prune_loop (prune d) v node (predecessors G node) G
                       (AList.update node (str node) res) of
                  None \<Rightarrow> None
                | Some (Inl e) \<Rightarrow> Some (Inl e)
                | Some (Inr (G1, res1)) \<Rightarrow>
                    (case map_of res1 node of
                       None \<Rightarrow> Some (Inl KeyError)
                     | Some s \<Rightarrow>
                         if has_node G1 node then Some (Inr (set_label node s G1, res1))
                         else Some (Inl KeyError)))))"

subsection \<open>accumulate (lines 100-106)\<close>

text \<open>
  \<^verbatim>\<open>
  def accumulate(G, node, res):
      total = G.nodes[node]['label']
      parents = G.predecessors(node)
      for p in parents:
          total += ', ' + accumulate(G, p, res)
      res[node] = total
      return total
  \<close>
  The graph is only read; the dictionary is passed through, the text is returned.
\<close>

type_synonym acc_result = "(error + string \<times> string dict) option"

fun accumulate_loop ::
  "(nat \<Rightarrow> string dict \<Rightarrow> acc_result) \<Rightarrow> string \<Rightarrow> nat list \<Rightarrow> string dict \<Rightarrow> acc_result" where
  "accumulate_loop rec tot [] res = Some (Inr (tot, res))"
| "accumulate_loop rec tot (p # ps) res =
     (case rec p res of
        None \<Rightarrow> None
      | Some (Inl e) \<Rightarrow> Some (Inl e)
      | Some (Inr (t, res1)) \<Rightarrow> accumulate_loop rec (tot @ '', '' @ t) ps res1)"

fun accumulate :: "nat \<Rightarrow> digraph \<Rightarrow> nat \<Rightarrow> string dict \<Rightarrow> acc_result" where
  "accumulate 0 G node res = None"
| "accumulate (Suc d) G node res =
     (case node_attrs G node of
        None \<Rightarrow> Some (Inl KeyError)
      | Some a \<Rightarrow>
          (case label a of
             None \<Rightarrow> Some (Inl KeyError)
           | Some tot \<Rightarrow>
               (case accumulate_loop (accumulate d G) tot (predecessors G node) res of
                  None \<Rightarrow> None
                | Some (Inl e) \<Rightarrow> Some (Inl e)
                | Some (Inr (tot', res1)) \<Rightarrow>
                    Some (Inr (tot', AList.update node tot' res1)))))"

subsection \<open>The derived views (lines 254-261)\<close>

text \<open>
  \<^verbatim>\<open>
  MT = nx.DiGraph(CMT)
  labels = {}
  prune(MT, S[0], labels)
  labels_ct = {}
  total = accumulate(MT, S[0], labels_ct)
  \<close>
  \<^verbatim>\<open>CMT\<close> and \<^verbatim>\<open>MT\<close> are references to two graph objects. The objects live in a store
  (a list, a reference is a position in it); \<^verbatim>\<open>nx.DiGraph(...)\<close> allocates a new object,
  \<^verbatim>\<open>prune\<close> mutates the object it is given, \<^verbatim>\<open>accumulate\<close> reads it.
\<close>

record session =
  objs :: "digraph list"
  CMT :: nat
  MT :: nat
  labels :: "string dict"

record views = session +
  labels_ct :: "string dict"
  total :: string

definition new_graph :: "digraph \<Rightarrow> digraph list \<Rightarrow> nat \<times> digraph list" where
  "new_graph G h = (length h, h @ [G])"

definition max_tree_view ::
  "nat \<Rightarrow> nat list \<Rightarrow> nat list \<Rightarrow> nat list \<Rightarrow> (error + session) option" where
  "max_tree_view d image_rav P_rav S =
     (case build image_rav P_rav S of
        Inl e \<Rightarrow> Some (Inl e)
      | Inr G \<Rightarrow>
          let (cmt, h0) = new_graph G [];
              (mt, h1) = new_graph (copy_graph (h0 ! cmt)) h0
          in (case S of
                [] \<Rightarrow> Some (Inl IndexError)
              | s0 # _ \<Rightarrow>
                  (case prune d (h1 ! mt) s0 [] of
                     None \<Rightarrow> None
                   | Some (Inl e) \<Rightarrow> Some (Inl e)
                   | Some (Inr (G', res)) \<Rightarrow>
                       Some (Inr \<lparr>objs = h1[mt := G'], CMT = cmt, MT = mt, labels = res\<rparr>))))"

definition component_tree_view :: "nat \<Rightarrow> nat list \<Rightarrow> session \<Rightarrow> (error + views) option" where
  "component_tree_view d S st =
     (case S of
        [] \<Rightarrow> Some (Inl IndexError)
      | s0 # _ \<Rightarrow>
          (case accumulate d (objs st ! MT st) s0 [] of
             None \<Rightarrow> None
           | Some (Inl e) \<Rightarrow> Some (Inl e)
           | Some (Inr (tot, res)) \<Rightarrow>
               Some (Inr \<lparr>objs = objs st, CMT = CMT st, MT = MT st, labels = labels st,
                          labels_ct = res, total = tot\<rparr>)))"

definition derive_views ::
  "nat \<Rightarrow> nat list \<Rightarrow> nat list \<Rightarrow> nat list \<Rightarrow> (error + views) option" where
  "derive_views d image_rav P_rav S =
     (case max_tree_view d image_rav P_rav S of
        None \<Rightarrow> None
      | Some (Inl e) \<Rightarrow> Some (Inl e)
      | Some (Inr st) \<Rightarrow> component_tree_view d S st)"

text \<open>Reading the views: values, label texts, the pixel lists of all labels.\<close>

definition value_of :: "digraph \<Rightarrow> nat \<Rightarrow> nat option" where
  "value_of G n = (case node_attrs G n of None \<Rightarrow> None | Some a \<Rightarrow> val a)"

definition label_of :: "digraph \<Rightarrow> nat \<Rightarrow> string option" where
  "label_of G n = (case node_attrs G n of None \<Rightarrow> None | Some a \<Rightarrow> label a)"

definition label_idxs :: "digraph \<Rightarrow> nat list list" where
  "label_idxs G =
     concat (map (\<lambda>na. case label (snd na) of None \<Rightarrow> [] | Some s \<Rightarrow> [idxs s]) (nodes G))"

subsection \<open>Well-formed input\<close>

text \<open>
  Modelled from the spec: the arrays come from \<^verbatim>\<open>skimage.morphology.max_tree\<close>, which is
  not part of the example, and the example checks nothing. The specification (sections 3
  and 4.1) calls \<open>(values, parent, order)\<close>, here \<open>(image_rav, P_rav, S)\<close>, a valid
  canonical max-tree when: the three arrays have the same length N; \<open>order\<close> is a
  permutation of the pixels \<open>0..<N\<close>; \<open>parent\<close> maps pixels to pixels; exactly one pixel
  is its own parent, and it is \<open>order[0]\<close>; no parent has a larger value than its child;
  every other pixel comes after its parent in \<open>order\<close>.
\<close>

definition roots :: "nat list \<Rightarrow> nat list" where
  "roots P_rav = filter (\<lambda>p. P_rav ! p = p) [0..<length P_rav]"

definition valid_cmt :: "nat list \<Rightarrow> nat list \<Rightarrow> nat list \<Rightarrow> bool" where
  "valid_cmt image_rav P_rav S =
     (let N = length image_rav
      in length P_rav = N \<and> S \<noteq> [] \<and> distinct S \<and> set S = set [0..<N] \<and>
         (\<forall>p \<in> set [0..<N]. P_rav ! p < N) \<and>
         roots P_rav = [hd S] \<and>
         (\<forall>p \<in> set [0..<N]. image_rav ! (P_rav ! p) \<le> image_rav ! p) \<and>
         (\<forall>i \<in> set [1..<N]. P_rav ! (S ! i) \<in> set (take i S)))"

text \<open>
  The trees \<^verbatim>\<open>max_tree\<close> returns are canonical in the sense of the example's own
  description (lines 241-245): the pixels of one level of a component all point to the
  one pixel that represents it, so a pixel that has the value of its parent is a leaf.
  Equivalently, the parent of a pixel is the root or has a larger value than its own parent.
\<close>

definition flat_levels :: "nat list \<Rightarrow> nat list \<Rightarrow> bool" where
  "flat_levels image_rav P_rav =
     (\<forall>q \<in> set [0..<length image_rav].
        P_rav ! q = q \<or> P_rav ! (P_rav ! q) = P_rav ! q \<or>
        image_rav ! (P_rav ! (P_rav ! q)) < image_rav ! (P_rav ! q))"

subsection \<open>Notions used in the proofs\<close>

text \<open>
  The tree that the arrays describe: the children of a pixel in the order in which
  \<^verbatim>\<open>predecessors\<close> yields them, those with the value of the pixel and the others; the
  pixels below a pixel (\<open>sub\<close>); the pixels \<^verbatim>\<open>prune\<close> reaches from a pixel (\<open>vis\<close>: every
  step down changes the value) and the pixels it removes on the way (\<open>rem\<close>); the label
  text a reached pixel receives (\<open>lbl\<close>).
\<close>

definition kids :: "nat list \<Rightarrow> nat list \<Rightarrow> nat \<Rightarrow> nat list" where
  "kids P S s = filter (\<lambda>n. P ! n = s) (tl S)"

definition eqk :: "nat list \<Rightarrow> nat list \<Rightarrow> nat list \<Rightarrow> nat \<Rightarrow> nat list" where
  "eqk I P S s = filter (\<lambda>c. I ! c = I ! s) (kids P S s)"

definition stk :: "nat list \<Rightarrow> nat list \<Rightarrow> nat list \<Rightarrow> nat \<Rightarrow> nat list" where
  "stk I P S s = filter (\<lambda>c. I ! c \<noteq> I ! s) (kids P S s)"

definition lbl :: "nat list \<Rightarrow> nat list \<Rightarrow> nat list \<Rightarrow> nat \<Rightarrow> string" where
  "lbl I P S n = str n @ concat (map (\<lambda>c. '', '' @ str c) (eqk I P S n))"

inductive_set sub :: "nat list \<Rightarrow> nat list \<Rightarrow> nat \<Rightarrow> nat set" for P S s where
  sub_self: "s \<in> sub P S s"
| sub_step: "c \<in> set (tl S) \<Longrightarrow> P ! c \<in> sub P S s \<Longrightarrow> c \<in> sub P S s"

inductive_set vis :: "nat list \<Rightarrow> nat list \<Rightarrow> nat list \<Rightarrow> nat \<Rightarrow> nat set" for I P S s where
  vis_self: "s \<in> vis I P S s"
| vis_step: "c \<in> set (tl S) \<Longrightarrow> P ! c \<in> vis I P S s \<Longrightarrow> I ! c \<noteq> I ! (P ! c) \<Longrightarrow> c \<in> vis I P S s"

definition rem :: "nat list \<Rightarrow> nat list \<Rightarrow> nat list \<Rightarrow> nat \<Rightarrow> nat set" where
  "rem I P S s = {c \<in> set (tl S). P ! c \<in> vis I P S s \<and> I ! c = I ! (P ! c)}"

definition lblm :: "nat list \<Rightarrow> nat list \<Rightarrow> nat list \<Rightarrow> nat set \<Rightarrow> nat \<Rightarrow> string option" where
  "lblm I P S V = (\<lambda>n. if n \<in> V then Some (lbl I P S n) else None)"

text \<open>
  The graph object \<^verbatim>\<open>MT\<close> while \<^verbatim>\<open>prune\<close> runs: the tree of the arrays without the removed
  pixels \<open>R\<close>, with the labels \<open>L\<close> assigned so far.
\<close>

definition tg ::
  "nat list \<Rightarrow> nat list \<Rightarrow> nat list \<Rightarrow> nat set \<Rightarrow> (nat \<Rightarrow> string option) \<Rightarrow> digraph" where
  "tg I P S R L =
     \<lparr>nodes = map (\<lambda>n. (n, \<lparr>val = Some (I ! n), label = L n\<rparr>)) (filter (\<lambda>n. n \<notin> R) S),
      edges = map (\<lambda>n. (n, P ! n)) (filter (\<lambda>n. n \<notin> R \<and> P ! n \<notin> R) (tl S))\<rparr>"

text \<open>The position of a pixel in the processing order, and the shape a valid input has.\<close>

definition pos :: "nat list \<Rightarrow> nat \<Rightarrow> nat" where
  "pos S n = length (takeWhile (\<lambda>x. x \<noteq> n) S)"

definition tree_ok :: "nat list \<Rightarrow> nat list \<Rightarrow> bool" where
  "tree_ok P S =
     (S \<noteq> [] \<and> distinct S \<and> (\<forall>c \<in> set (tl S). P ! c \<in> set S \<and> pos S (P ! c) < pos S c))"

text \<open>
  A dictionary of cumulative texts is consistent with a graph when each entry is the
  label of its node followed by the entries of the node's predecessors.
\<close>

definition consistent :: "digraph \<Rightarrow> (nat \<Rightarrow> string option) \<Rightarrow> bool" where
  "consistent G m =
     (\<forall>n t. m n = Some t \<longrightarrow>
        (\<exists>lb. label_of G n = Some lb \<and> set (predecessors G n) \<subseteq> dom m \<and>
              t = lb @ concat (map (\<lambda>p. '', '' @ the (m p)) (predecessors G n))))"

text \<open>
  The keys of a dictionary are in post-order for a graph when every key comes after all
  predecessors of its node.
\<close>

fun post_order_from :: "digraph \<Rightarrow> nat list \<Rightarrow> string dict \<Rightarrow> bool" where
  "post_order_from G seen [] = True"
| "post_order_from G seen (kv # rest) =
     (set (predecessors G (fst kv)) \<subseteq> set seen \<and> post_order_from G (fst kv # seen) rest)"

definition post_order :: "digraph \<Rightarrow> string dict \<Rightarrow> bool" where
  "post_order G res = post_order_from G [] res"

section \<open>Decimal texts and the pixels they list\<close>

lemma digit_props:
  assumes "d < 10"
  shows "digit d \<noteq> CHR '','' \<and> digit d \<noteq> CHR '' '' \<and> (of_char (digit d) :: nat) - 48 = d"
proof -
  from assms have "d \<in> {0,1,2,3,4,5,6,7,8,9}" by auto
  then show ?thesis by (auto simp: digit_def)
qed

lemma idxs_from_digit:
  "d < 10 \<Longrightarrow> idxs_from a (digit d # r) = idxs_from (10 * a + d) r"
  using digit_props [of d] by simp

lemma idxs_from_comma:
  "idxs_from a (s @ CHR '','' # t) = idxs_from a s @ idxs_from 0 t"
  by (induction s arbitrary: a) auto

lemma idxs_from_blank: "idxs_from a (CHR '' '' # t) = idxs_from a t"
  by simp

declare idxs_from.simps(2) [simp del]

lemma idxs_from_str:
  "idxs_from a (str n @ r) = idxs_from (a * 10 ^ length (str n) + n) r"
proof (induction n arbitrary: a r rule: str.induct)
  case (1 n)
  show ?case
  proof (cases "n < 10")
    case True
    then show ?thesis
      by (subst (1 2) str.simps) (simp add: idxs_from_digit mult.commute)
  next
    case False
    have m: "n mod 10 < 10" by simp
    have "idxs_from a (str n @ r) = idxs_from a (str (n div 10) @ digit (n mod 10) # r)"
      using False by (subst str.simps) simp
    also have "\<dots> = idxs_from (a * 10 ^ length (str (n div 10)) + n div 10) (digit (n mod 10) # r)"
      using 1 [OF False] by simp
    also have "\<dots> = idxs_from (10 * (a * 10 ^ length (str (n div 10)) + n div 10) + n mod 10) r"
      by (simp only: idxs_from_digit [OF m])
    also have "10 * (a * 10 ^ length (str (n div 10)) + n div 10) + n mod 10
                = a * 10 ^ length (str n) + n"
      using False by (subst (2) str.simps) (simp add: algebra_simps)
    finally show ?thesis .
  qed
qed

lemma idxs_str [simp]: "idxs (str n) = [n]"
  using idxs_from_str [of 0 n "[]"] by (simp add: idxs_def)

lemma idxs_join [simp]: "idxs (s @ CHR '','' # CHR '' '' # t) = idxs s @ idxs t"
  by (simp add: idxs_def idxs_from_comma idxs_from_blank)

lemma idxs_join_list [simp]:
  "idxs (s @ concat (map (\<lambda>c. CHR '','' # CHR '' '' # f c) cs))
     = idxs s @ concat (map (\<lambda>c. idxs (f c)) cs)"
proof (induction cs arbitrary: s)
  case Nil
  then show ?case by simp
next
  case (Cons c cs)
  show ?case using Cons.IH [of "s @ CHR '','' # CHR '' '' # f c"] by simp
qed

section \<open>The builder validates nothing\<close>

lemma edges_add_node [simp]: "edges (add_node n G) = edges G"
  by (simp add: add_node_def)

lemma edges_add_edge: "set (edges (add_edge e G)) = insert e (set (edges G))"
  by (auto simp: add_edge_def Let_def)

lemma edges_add_edges_from: "set (edges (add_edges_from es G)) = set (edges G) \<union> set es"
  unfolding add_edges_from_def
  by (induction es arbitrary: G) (auto simp: edges_add_edge)

lemma edges_set_val [simp]: "edges (set_val n x G) = edges G"
  by (simp add: set_val_def)

lemma edges_fold_set_val [simp]: "edges (fold (\<lambda>n. set_val n (f n)) ns G) = edges G"
  by (induction ns arbitrary: G) auto

lemma edges_add_nodes_from [simp]: "edges (add_nodes_from ns G) = edges G"
  unfolding add_nodes_from_def by (induction ns arbitrary: G) auto

text \<open>
  Claim C1, as stated: a parent array with two self-parents is rejected with
  InvalidTreeError (MultipleRoots). The code has no such error and no check: for the parent
  array \<open>[0, 0, 2, 0]\<close>, whose roots are the pixels 0 and 2, the builder returns a graph,
  with the self-loop \<open>(0, 0)\<close> as an edge.
\<close>

theorem build_two_roots_accepted:
  "roots [0, 0, 2, 0] = [0, 2] \<and>
   build [2, 2, 1, 3] [0, 0, 2, 0] [2, 0, 1, 3] =
     Inr \<lparr>nodes = [(2, \<lparr>val = Some 1, label = None\<rparr>), (0, \<lparr>val = Some 2, label = None\<rparr>),
                  (1, \<lparr>val = Some 2, label = None\<rparr>), (3, \<lparr>val = Some 3, label = None\<rparr>)],
          edges = [(0, 0), (1, 0), (3, 0)]\<rparr>"
  by code_simp

text \<open>
  Claim C1, amended: the builder checks nothing about the tree. Whenever the pixels of the
  processing order are indices of the value array, and those after the first are indices
  of the parent array, it returns a graph, whose edges are the pairs \<open>(n, parent[n])\<close> for
  the pixels \<open>n\<close> after the first, whatever the number of roots.
\<close>

theorem build_validates_nothing:
  assumes "indices_ok image_rav P_rav S"
  shows "\<exists>G. build image_rav P_rav S = Inr G \<and>
             set (edges G) = (\<lambda>n. (n, P_rav ! n)) ` set (tl S)"
proof -
  have a: "\<not> (\<exists>n \<in> set S. length image_rav \<le> n)"
    using assms by (auto simp: indices_ok_def not_le)
  have b: "\<not> (\<exists>n \<in> set (tl S). length P_rav \<le> n)"
    using assms by (auto simp: indices_ok_def not_le)
  show ?thesis
    unfolding build_def Let_def using a b
    by (simp add: edges_add_edges_from empty_graph_def)
qed

theorem build_validates_nothing_witness:
  "indices_ok [2, 2, 1, 3] [0, 0, 2, 0] [2, 0, 1, 3] \<and>
   (\<exists>G. build [2, 2, 1, 3] [0, 0, 2, 0] [2, 0, 1, 3] = Inr G \<and>
        set (edges G) = (\<lambda>n. (n, [0, 0, 2, 0] ! n)) ` set (tl [2, 0, 1, 3]))"
  using build_validates_nothing [of "[2, 2, 1, 3]" "[0, 0, 2, 0]" "[2, 0, 1, 3]"]
  by (simp add: indices_ok_def)

section \<open>Graphs of trees\<close>

lemma in_tl_in_set: "x \<in> set (tl xs) \<Longrightarrow> x \<in> set xs"
  by (cases xs) auto

subsection \<open>The tree graphs\<close>

lemma node_attrs_tg:
  "node_attrs (tg I P S R L) n =
     (if n \<in> set S \<and> n \<notin> R then Some \<lparr>val = Some (I ! n), label = L n\<rparr> else None)"
  by (simp add: node_attrs_def tg_def map_of_map_restrict restrict_map_def)

lemma has_node_tg: "has_node (tg I P S R L) n \<longleftrightarrow> n \<in> set S \<and> n \<notin> R"
  by (auto simp: has_node_def tg_def image_iff)

lemma preds_tg:
  "predecessors (tg I P S R L) s = (if s \<in> R then [] else filter (\<lambda>n. n \<notin> R) (kids P S s))"
proof -
  have "predecessors (tg I P S R L) s = filter (\<lambda>n. P ! n = s) (filter (\<lambda>n. n \<notin> R \<and> P ! n \<notin> R) (tl S))"
    by (simp add: predecessors_def tg_def filter_map comp_def)
  also have "\<dots> = (if s \<in> R then [] else filter (\<lambda>n. n \<notin> R) (kids P S s))"
    by (auto simp: kids_def filter_empty_conv intro: filter_cong)
  finally show ?thesis .
qed

lemma remove_node_tg: "remove_node p (tg I P S R L) = tg I P S (insert p R) L"
proof -
  have 1: "filter (\<lambda>x. x \<notin> R \<and> x \<noteq> p) S = filter (\<lambda>n. n \<noteq> p \<and> n \<notin> R) S"
    by (auto intro: filter_cong)
  have 2: "filter (\<lambda>x. x \<notin> R \<and> P ! x \<notin> R \<and> x \<noteq> p \<and> P ! x \<noteq> p) (tl S)
         = filter (\<lambda>n. n \<noteq> p \<and> n \<notin> R \<and> P ! n \<noteq> p \<and> P ! n \<notin> R) (tl S)"
    by (auto intro: filter_cong)
  show ?thesis
    by (simp add: remove_node_def tg_def filter_map comp_def 1 2)
qed

lemma set_label_tg: "set_label n s (tg I P S R L) = tg I P S R (L(n \<mapsto> s))"
  by (simp add: set_label_def tg_def)

lemma edges_tg_empty: "edges (tg I P S {} L) = map (\<lambda>n. (n, P ! n)) (tl S)"
  by (simp add: tg_def)

subsection \<open>What the builder returns on a tree\<close>

lemma fold_add_node:
  "distinct ns \<Longrightarrow> set ns \<inter> fst ` set (nodes G) = {} \<Longrightarrow>
     fold add_node ns G = G\<lparr>nodes := nodes G @ map (\<lambda>n. (n, \<lparr>val = None, label = None\<rparr>)) ns\<rparr>"
proof (induction ns arbitrary: G)
  case Nil
  then show ?case by simp
next
  case (Cons n ns)
  have n: "\<not> has_node G n" using Cons.prems by (auto simp: has_node_def)
  let ?G = "G\<lparr>nodes := nodes G @ [(n, \<lparr>val = None, label = None\<rparr>)]\<rparr>"
  have "fold add_node (n # ns) G = fold add_node ns ?G"
    using n by (simp add: add_node_def)
  also have "\<dots> = ?G\<lparr>nodes := nodes ?G @ map (\<lambda>n. (n, \<lparr>val = None, label = None\<rparr>)) ns\<rparr>"
    using Cons.prems by (intro Cons.IH) auto
  finally show ?case by simp
qed

lemma nodes_fold_set_val:
  "nodes (fold (\<lambda>n. set_val n (f n)) ns G) =
     map (\<lambda>(m, a). if m \<in> set ns then (m, a\<lparr>val := Some (f m)\<rparr>) else (m, a)) (nodes G)"
proof (induction ns arbitrary: G)
  case Nil
  then show ?case by (simp add: case_prod_unfold)
next
  case (Cons n ns)
  have "nodes (fold (\<lambda>n. set_val n (f n)) (n # ns) G)
          = map (\<lambda>(m, a). if m \<in> set ns then (m, a\<lparr>val := Some (f m)\<rparr>) else (m, a))
              (nodes (set_val n (f n) G))"
    by (simp add: Cons.IH)
  also have "\<dots> = map (\<lambda>(m, a). if m \<in> set (n # ns) then (m, a\<lparr>val := Some (f m)\<rparr>) else (m, a))
              (nodes G)"
    by (auto simp: set_val_def)
  finally show ?case .
qed

lemma fold_add_edge:
  "distinct es \<Longrightarrow> set es \<inter> set (edges G) = {} \<Longrightarrow>
   \<forall>e \<in> set es. has_node G (fst e) \<and> has_node G (snd e) \<Longrightarrow>
     fold add_edge es G = G\<lparr>edges := edges G @ es\<rparr>"
proof (induction es arbitrary: G)
  case Nil
  then show ?case by simp
next
  case (Cons e es)
  let ?G = "G\<lparr>edges := edges G @ [e]\<rparr>"
  have "add_edge e G = ?G"
    using Cons.prems by (simp add: add_edge_def add_node_def Let_def)
  then have "fold add_edge (e # es) G = fold add_edge es ?G" by simp
  also have "\<dots> = ?G\<lparr>edges := edges ?G @ es\<rparr>"
    using Cons.prems by (intro Cons.IH) (auto simp: has_node_def)
  finally show ?case by simp
qed

lemma build_tree:
  assumes "distinct S" and "indices_ok I P S" and "\<forall>c \<in> set (tl S). P ! c \<in> set S"
  shows "build I P S = Inr (tg I P S {} (\<lambda>n. None))"
proof -
  let ?G = "add_nodes_from S empty_graph"
  have G: "?G = \<lparr>nodes = map (\<lambda>n. (n, \<lparr>val = None, label = None\<rparr>)) S, edges = []\<rparr>"
    using fold_add_node [of S empty_graph] assms(1)
    by (simp add: add_nodes_from_def empty_graph_def)
  let ?G1 = "fold (\<lambda>n. set_val n (I ! n)) (map fst (nodes ?G)) ?G"
  have keys: "map fst (nodes ?G) = S" by (simp add: G comp_def)
  have n1: "nodes ?G1 = map (\<lambda>n. (n, \<lparr>val = Some (I ! n), label = None\<rparr>)) S"
    unfolding keys nodes_fold_set_val by (simp add: G)
  have e1: "edges ?G1 = []" by (simp add: empty_graph_def)
  have G1: "?G1 = \<lparr>nodes = map (\<lambda>n. (n, \<lparr>val = Some (I ! n), label = None\<rparr>)) S, edges = []\<rparr>"
    using n1 e1 by (cases ?G1) simp
  let ?es = "map (\<lambda>n. (n, P ! n)) (tl S)"
  have d: "distinct ?es" using assms(1) by (simp add: distinct_map distinct_tl inj_on_def)
  have h: "\<forall>e \<in> set ?es. has_node ?G1 (fst e) \<and> has_node ?G1 (snd e)"
    using assms(3) by (auto simp: G1 has_node_def image_iff dest: in_tl_in_set)
  have "add_edges_from ?es ?G1 = ?G1\<lparr>edges := edges ?G1 @ ?es\<rparr>"
    unfolding add_edges_from_def using d h by (intro fold_add_edge) (auto simp: empty_graph_def)
  also have "\<dots> = tg I P S {} (\<lambda>n. None)" by (simp add: G1 tg_def)
  finally have r: "add_edges_from ?es ?G1 = tg I P S {} (\<lambda>n. None)" .
  have a: "\<not> (\<exists>n \<in> set S. length I \<le> n)"
    using assms(2) by (auto simp: indices_ok_def not_le)
  have b: "\<not> (\<exists>n \<in> set (tl S). length P \<le> n)"
    using assms(2) by (auto simp: indices_ok_def not_le)
  show ?thesis unfolding build_def Let_def using a b r by simp
qed

lemma filter_eq_distinct:
  "distinct xs \<Longrightarrow> filter (\<lambda>n. n = u) xs = (if u \<in> set xs then [u] else [])"
  by (induction xs) (auto simp: filter_empty_conv)

lemma successors_tg_empty:
  assumes "distinct S" "S \<noteq> []"
  shows "successors (tg I P S {} L) u = (if u \<in> set (tl S) then [P ! u] else [])"
proof -
  have d: "distinct (tl S)" using assms by (simp add: distinct_tl)
  have "successors (tg I P S {} L) u = map (\<lambda>n. P ! n) (filter (\<lambda>n. n = u) (tl S))"
    by (simp add: successors_def tg_def filter_map comp_def)
  also have "filter (\<lambda>n. n = u) (tl S) = (if u \<in> set (tl S) then [u] else [])"
    using d by (rule filter_eq_distinct)
  finally show ?thesis by simp
qed

lemma concat_map_if:
  "concat (map (\<lambda>u. if Q u then [f u] else []) xs) = map f (filter Q xs)"
  by (induction xs) auto

lemma copy_graph_tg:
  assumes "distinct S" "S \<noteq> []"
  shows "copy_graph (tg I P S {} L) = tg I P S {} L"
proof -
  obtain r rest where S: "S = r # rest" using assms(2) by (cases S) auto
  have r: "r \<notin> set rest" and d: "distinct rest" using assms(1) S by auto
  have "edges (copy_graph (tg I P S {} L))
          = concat (map (\<lambda>u. if u \<in> set (tl S) then [(u, P ! u)] else []) S)"
  proof -
    have k: "map fst (nodes (tg I P S {} L)) = S" by (simp add: tg_def comp_def)
    show ?thesis
      unfolding copy_graph_def
      by (simp add: k successors_tg_empty [OF assms] if_distrib cong: if_cong)
  qed
  also have "\<dots> = map (\<lambda>u. (u, P ! u)) (filter (\<lambda>u. u \<in> set (tl S)) S)"
    by (rule concat_map_if)
  also have "filter (\<lambda>u. u \<in> set (tl S)) S = tl S"
    using r by (simp add: S)
  finally have "edges (copy_graph (tg I P S {} L)) = edges (tg I P S {} L)"
    by (simp add: tg_def)
  then show ?thesis by (simp add: copy_graph_def tg_def)
qed

section \<open>The tree of a valid input\<close>

subsection \<open>Positions in the processing order\<close>

lemma pos_less: "n \<in> set S \<Longrightarrow> pos S n < length S"
  unfolding pos_def by (induction S) auto

lemma nth_pos: "n \<in> set S \<Longrightarrow> S ! pos S n = n"
  unfolding pos_def by (induction S) auto

lemma pos_nth: "distinct S \<Longrightarrow> i < length S \<Longrightarrow> pos S (S ! i) = i"
  using nth_pos [of "S ! i" S] pos_less [of "S ! i" S]
  by (simp add: nth_eq_iff_index_eq)

lemma hd_notin_tl: "distinct S \<Longrightarrow> S \<noteq> [] \<Longrightarrow> hd S \<notin> set (tl S)"
  by (cases S) auto

subsection \<open>The pixels below a pixel\<close>

lemma in_kids: "c \<in> set (kids P S s) \<longleftrightarrow> c \<in> set (tl S) \<and> P ! c = s"
  by (auto simp: kids_def)

lemma distinct_kids: "distinct S \<Longrightarrow> distinct (kids P S s)"
  by (simp add: kids_def distinct_tl)

lemma sub_pos_le': "n \<in> sub P S s \<Longrightarrow> tree_ok P S \<Longrightarrow> pos S s \<le> pos S n"
proof (induction rule: sub.induct)
  case sub_self
  then show ?case by simp
next
  case (sub_step c)
  then show ?case by (fastforce simp: tree_ok_def)
qed

lemma sub_pos_le: "tree_ok P S \<Longrightarrow> n \<in> sub P S s \<Longrightarrow> pos S s \<le> pos S n"
  by (rule sub_pos_le')

lemma sub_pos_less: "n \<in> sub P S s \<Longrightarrow> tree_ok P S \<Longrightarrow> n \<noteq> s \<Longrightarrow> pos S s < pos S n"
proof (erule sub.cases, goal_cases)
  case 1
  then show ?case by simp
next
  case (2 c)
  then have "pos S s \<le> pos S (P ! c)" using sub_pos_le by blast
  moreover have "pos S (P ! c) < pos S c" using 2 by (simp add: tree_ok_def)
  ultimately show ?case using 2 by simp
qed

lemma kid_pos: "tree_ok P S \<Longrightarrow> c \<in> set (kids P S s) \<Longrightarrow> pos S s < pos S c"
  by (auto simp: in_kids tree_ok_def)

lemma kid_in_S: "c \<in> set (kids P S s) \<Longrightarrow> c \<in> set S"
  by (auto simp: in_kids dest: in_tl_in_set)

lemma sub_kid: "n \<in> sub P S c \<Longrightarrow> c \<in> set (kids P S s) \<Longrightarrow> n \<in> sub P S s"
proof (induction rule: sub.induct)
  case sub_self
  then show ?case by (auto simp: in_kids intro: sub.intros)
next
  case (sub_step c)
  then show ?case by (auto intro: sub.intros)
qed

lemma sub_not_self_kid:
  "tree_ok P S \<Longrightarrow> c \<in> set (kids P S s) \<Longrightarrow> s \<notin> sub P S c"
  using kid_pos [of P S c s] sub_pos_le [of P S s c] by fastforce

lemma sub_chain:
  "n \<in> sub P S a \<Longrightarrow> n \<in> sub P S b \<Longrightarrow> a \<in> sub P S b \<or> b \<in> sub P S a"
proof (induction rule: sub.induct)
  case sub_self
  then show ?case by simp
next
  case (sub_step c)
  show ?case
  proof (cases "c = b")
    case True
    then show ?thesis using sub_step.hyps by (auto intro: sub.intros)
  next
    case False
    then have "P ! c \<in> sub P S b" using sub_step.prems by (auto elim: sub.cases)
    then show ?thesis using sub_step.IH by simp
  qed
qed

lemma sub_siblings:
  assumes "tree_ok P S" "a \<in> set (kids P S s)" "b \<in> set (kids P S s)" "a \<noteq> b"
  shows "sub P S a \<inter> sub P S b = {}"
proof (rule ccontr)
  assume "sub P S a \<inter> sub P S b \<noteq> {}"
  then obtain n where "n \<in> sub P S a" "n \<in> sub P S b" by auto
  then have "a \<in> sub P S b \<or> b \<in> sub P S a" by (rule sub_chain)
  moreover have "a \<notin> sub P S b"
  proof
    assume "a \<in> sub P S b"
    then have "P ! a \<in> sub P S b" using assms(4) by (auto elim: sub.cases)
    then show False using assms sub_not_self_kid [of P S b s] by (simp add: in_kids)
  qed
  moreover have "b \<notin> sub P S a"
  proof
    assume "b \<in> sub P S a"
    then have "P ! b \<in> sub P S a" using assms(4) by (auto elim: sub.cases)
    then show False using assms sub_not_self_kid [of P S a s] by (simp add: in_kids)
  qed
  ultimately show False by simp
qed

subsection \<open>The pixels reached and the pixels removed\<close>

lemma vis_sub: "n \<in> vis I P S s \<Longrightarrow> n \<in> sub P S s"
  by (induction rule: vis.induct) (auto intro: sub.intros)

lemma rem_sub: "n \<in> rem I P S s \<Longrightarrow> n \<in> sub P S s"
  by (auto simp: rem_def intro: sub.intros vis_sub)

lemma rem_not_self: "tree_ok P S \<Longrightarrow> s \<notin> rem I P S s"
proof
  assume t: "tree_ok P S" and "s \<in> rem I P S s"
  then have "s \<in> set (tl S)" "P ! s \<in> sub P S s" by (auto simp: rem_def intro: vis_sub)
  then show False using t sub_pos_le [of P S "P ! s" s] by (fastforce simp: tree_ok_def)
qed

lemma in_stk: "c \<in> set (stk I P S s) \<longleftrightarrow> c \<in> set (kids P S s) \<and> I ! c \<noteq> I ! s"
  by (simp add: stk_def)

lemma in_eqk: "c \<in> set (eqk I P S s) \<longleftrightarrow> c \<in> set (kids P S s) \<and> I ! c = I ! s"
  by (simp add: eqk_def)

lemma vis_kid: "n \<in> vis I P S c \<Longrightarrow> c \<in> set (stk I P S s) \<Longrightarrow> n \<in> vis I P S s"
proof (induction rule: vis.induct)
  case vis_self
  then show ?case by (auto simp: in_stk in_kids intro: vis.intros)
next
  case (vis_step c)
  then show ?case by (auto intro: vis.intros)
qed

lemma vis_split:
  "n \<in> vis I P S s \<Longrightarrow> n = s \<or> (\<exists>c \<in> set (stk I P S s). n \<in> vis I P S c)"
proof (induction rule: vis.induct)
  case vis_self
  then show ?case by simp
next
  case (vis_step c)
  show ?case
  proof (cases "P ! c = s")
    case True
    then have "c \<in> set (stk I P S s)" using vis_step.hyps by (simp add: in_stk in_kids)
    then show ?thesis by (auto intro: vis.intros)
  next
    case False
    then obtain k where "k \<in> set (stk I P S s)" "P ! c \<in> vis I P S k"
      using vis_step.IH by auto
    then show ?thesis using vis_step.hyps by (auto intro: vis.intros)
  qed
qed

lemma vis_unfold:
  "vis I P S s = insert s (\<Union>c \<in> set (stk I P S s). vis I P S c)"
  by (auto dest: vis_split intro: vis_kid vis.intros)

lemma rem_unfold:
  "rem I P S s = set (eqk I P S s) \<union> (\<Union>c \<in> set (stk I P S s). rem I P S c)"
proof (intro set_eqI iffI)
  fix n assume "n \<in> rem I P S s"
  then have n: "n \<in> set (tl S)" "P ! n \<in> vis I P S s" "I ! n = I ! (P ! n)"
    by (auto simp: rem_def)
  from vis_split [OF n(2)] show "n \<in> set (eqk I P S s) \<union> (\<Union>c \<in> set (stk I P S s). rem I P S c)"
    using n by (auto simp: in_eqk in_kids rem_def)
next
  fix n assume "n \<in> set (eqk I P S s) \<union> (\<Union>c \<in> set (stk I P S s). rem I P S c)"
  then show "n \<in> rem I P S s"
    by (auto simp: in_eqk in_kids rem_def intro: vis.intros vis_kid)
qed

lemma vis_rem_disjoint: "n \<in> vis I P S (hd S) \<Longrightarrow> tree_ok P S \<Longrightarrow> n \<notin> rem I P S s"
proof (erule vis.cases, goal_cases)
  case 1
  then show ?case using hd_notin_tl [of S] by (auto simp: rem_def tree_ok_def)
next
  case (2 c)
  then show ?case by (auto simp: rem_def)
qed

section \<open>What prune does on a tree\<close>

subsection \<open>prune on a tree\<close>

lemma lblm_union: "L ++ lblm I P S A ++ lblm I P S B = L ++ lblm I P S (A \<union> B)"
  by (rule ext) (simp add: map_add_def lblm_def)

lemma lblm_insert:
  "(L ++ lblm I P S A)(s \<mapsto> lbl I P S s) = L ++ lblm I P S (insert s A)"
  by (rule ext) (simp add: map_add_def lblm_def)

lemma lblm_empty [simp]: "L ++ lblm I P S {} = L"
  by (rule ext) (simp add: map_add_def lblm_def)

lemma lblm_notin: "s \<notin> A \<Longrightarrow> (L ++ lblm I P S A) s = L s"
  by (simp add: map_add_def lblm_def)

lemma prune_loop_tree:
  assumes t: "tree_ok P S"
    and rec: "\<And>c R L res. c \<in> set ps \<Longrightarrow> I ! c \<noteq> I ! s \<Longrightarrow> R \<inter> sub P S c = {} \<Longrightarrow>
          \<exists>res'. prune d (tg I P S R L) c res
                   = Some (Inr (tg I P S (R \<union> rem I P S c) (L ++ lblm I P S (vis I P S c)), res'))
               \<and> map_of res' = map_of res ++ lblm I P S (vis I P S c)"
    and ps: "distinct ps" "set ps \<subseteq> set (kids P S s)"
    and R: "R \<inter> (\<Union>c \<in> set ps. sub P S c) = {}"
    and txh: "map_of res s = Some tx"
  shows "\<exists>res'. prune_loop (prune d) (I ! s) s ps (tg I P S R L) res
            = Some (Inr (tg I P S
                 (R \<union> {c \<in> set ps. I ! c = I ! s} \<union> (\<Union>c \<in> {c \<in> set ps. I ! c \<noteq> I ! s}. rem I P S c))
                 (L ++ lblm I P S (\<Union>c \<in> {c \<in> set ps. I ! c \<noteq> I ! s}. vis I P S c)), res'))
          \<and> map_of res' = (map_of res ++ lblm I P S (\<Union>c \<in> {c \<in> set ps. I ! c \<noteq> I ! s}. vis I P S c))
                (s \<mapsto> tx @ concat (map (\<lambda>c. '', '' @ str c) (filter (\<lambda>c. I ! c = I ! s) ps)))"
  using rec ps R txh
proof (induction ps arbitrary: R L res tx)
  case Nil
  show ?case using Nil.prems(5) by (auto simp: fun_upd_idem)
next
  case (Cons p ps)
  have pk: "p \<in> set (kids P S s)" using Cons.prems(3) by simp
  have pS: "p \<in> set S" using pk by (rule kid_in_S)
  have pR: "p \<notin> R" using Cons.prems(4) by (auto intro: sub.intros)
  have attrs: "node_attrs (tg I P S R L) p = Some \<lparr>val = Some (I ! p), label = L p\<rparr>"
    using pS pR by (simp add: node_attrs_tg)
  have sib: "\<And>c. c \<in> set ps \<Longrightarrow> sub P S p \<inter> sub P S c = {}"
    using Cons.prems(2,3) pk by (intro sub_siblings [OF t, of p s]) auto
  have rec': "\<And>c R L res. c \<in> set ps \<Longrightarrow> I ! c \<noteq> I ! s \<Longrightarrow> R \<inter> sub P S c = {} \<Longrightarrow>
          \<exists>res'. prune d (tg I P S R L) c res
                   = Some (Inr (tg I P S (R \<union> rem I P S c) (L ++ lblm I P S (vis I P S c)), res'))
               \<and> map_of res' = map_of res ++ lblm I P S (vis I P S c)"
    using Cons.prems(1) by simp
  have d: "distinct ps" and sub: "set ps \<subseteq> set (kids P S s)" using Cons.prems(2,3) by auto
  show ?case
  proof (cases "I ! p = I ! s")
    case True
    let ?res = "AList.update s (tx @ '', '' @ str p) res"
    have R': "insert p R \<inter> (\<Union>c \<in> set ps. sub P S c) = {}"
      using Cons.prems(4) sib by (auto intro: sub.intros)
    have tx': "map_of ?res s = Some (tx @ '', '' @ str p)" by (simp add: update_conv')
    from Cons.IH [OF rec' d sub R' tx', of L]
    obtain res' where
      r: "prune_loop (prune d) (I ! s) s ps (tg I P S (insert p R) L) ?res
            = Some (Inr (tg I P S
                 (insert p R \<union> {c \<in> set ps. I ! c = I ! s} \<union> (\<Union>c \<in> {c \<in> set ps. I ! c \<noteq> I ! s}. rem I P S c))
                 (L ++ lblm I P S (\<Union>c \<in> {c \<in> set ps. I ! c \<noteq> I ! s}. vis I P S c)), res'))"
      and m: "map_of res' = (map_of ?res ++ lblm I P S (\<Union>c \<in> {c \<in> set ps. I ! c \<noteq> I ! s}. vis I P S c))
                (s \<mapsto> (tx @ '', '' @ str p) @ concat (map (\<lambda>c. '', '' @ str c) (filter (\<lambda>c. I ! c = I ! s) ps)))"
      by blast
    have e1: "{c \<in> set (p # ps). I ! c \<noteq> I ! s} = {c \<in> set ps. I ! c \<noteq> I ! s}"
      using True by auto
    have e2: "R \<union> {c \<in> set (p # ps). I ! c = I ! s} = insert p R \<union> {c \<in> set ps. I ! c = I ! s}"
      using True by auto
    have step: "prune_loop (prune d) (I ! s) s (p # ps) (tg I P S R L) res
                 = prune_loop (prune d) (I ! s) s ps (tg I P S (insert p R) L) ?res"
      using True attrs Cons.prems(5) by (simp add: remove_node_tg)
    have m': "map_of res' = (map_of res ++ lblm I P S (\<Union>c \<in> {c \<in> set ps. I ! c \<noteq> I ! s}. vis I P S c))
                (s \<mapsto> tx @ concat (map (\<lambda>c. '', '' @ str c) (filter (\<lambda>c. I ! c = I ! s) (p # ps))))"
      unfolding m using True by (intro ext) (auto simp: update_conv' map_add_def split: option.splits)
    show ?thesis unfolding step e1 e2
      by (intro exI [of _ res'] conjI r m')
  next
    case False
    have Rp: "R \<inter> sub P S p = {}" using Cons.prems(4) by auto
    from Cons.prems(1) [OF _ False Rp, of L res]
    obtain res1 where
      p1: "prune d (tg I P S R L) p res
             = Some (Inr (tg I P S (R \<union> rem I P S p) (L ++ lblm I P S (vis I P S p)), res1))"
      and m1: "map_of res1 = map_of res ++ lblm I P S (vis I P S p)"
      by auto
    have "s \<notin> vis I P S p" using sub_not_self_kid [OF t pk] vis_sub by blast
    then have txt1: "map_of res1 s = Some tx"
      using Cons.prems(5) by (simp add: m1 lblm_notin)
    have R1: "(R \<union> rem I P S p) \<inter> (\<Union>c \<in> set ps. sub P S c) = {}"
      using Cons.prems(4) sib rem_sub [of _ I P S p] by fastforce
    from Cons.IH [OF rec' d sub R1 txt1, of "L ++ lblm I P S (vis I P S p)"]
    obtain res' where
      r: "prune_loop (prune d) (I ! s) s ps (tg I P S (R \<union> rem I P S p) (L ++ lblm I P S (vis I P S p))) res1
            = Some (Inr (tg I P S
                 (R \<union> rem I P S p \<union> {c \<in> set ps. I ! c = I ! s} \<union> (\<Union>c \<in> {c \<in> set ps. I ! c \<noteq> I ! s}. rem I P S c))
                 (L ++ lblm I P S (vis I P S p) ++ lblm I P S (\<Union>c \<in> {c \<in> set ps. I ! c \<noteq> I ! s}. vis I P S c)), res'))"
      and m: "map_of res' = (map_of res1 ++ lblm I P S (\<Union>c \<in> {c \<in> set ps. I ! c \<noteq> I ! s}. vis I P S c))
                (s \<mapsto> tx @ concat (map (\<lambda>c. '', '' @ str c) (filter (\<lambda>c. I ! c = I ! s) ps)))"
      by blast
    have e1: "{c \<in> set (p # ps). I ! c \<noteq> I ! s} = insert p {c \<in> set ps. I ! c \<noteq> I ! s}"
      using False by auto
    have e2: "{c \<in> set (p # ps). I ! c = I ! s} = {c \<in> set ps. I ! c = I ! s}"
      using False by auto
    have e3: "R \<union> {c \<in> set ps. I ! c = I ! s} \<union> (\<Union>c \<in> insert p {c \<in> set ps. I ! c \<noteq> I ! s}. rem I P S c)
            = R \<union> rem I P S p \<union> {c \<in> set ps. I ! c = I ! s} \<union> (\<Union>c \<in> {c \<in> set ps. I ! c \<noteq> I ! s}. rem I P S c)"
      by auto
    have e4: "(\<Union>c \<in> insert p {c \<in> set ps. I ! c \<noteq> I ! s}. vis I P S c)
            = vis I P S p \<union> (\<Union>c \<in> {c \<in> set ps. I ! c \<noteq> I ! s}. vis I P S c)"
      by auto
    have step: "prune_loop (prune d) (I ! s) s (p # ps) (tg I P S R L) res
                 = prune_loop (prune d) (I ! s) s ps (tg I P S (R \<union> rem I P S p) (L ++ lblm I P S (vis I P S p))) res1"
      using False attrs p1 by simp
    have m': "map_of res' = (map_of res ++ lblm I P S (vis I P S p \<union> (\<Union>c \<in> {c \<in> set ps. I ! c \<noteq> I ! s}. vis I P S c)))
                (s \<mapsto> tx @ concat (map (\<lambda>c. '', '' @ str c) (filter (\<lambda>c. I ! c = I ! s) (p # ps))))"
      unfolding m m1 lblm_union using False by simp
    show ?thesis unfolding step e1 e2 e3 e4
      by (intro exI [of _ res'] conjI r [unfolded lblm_union] m')
  qed
qed

lemma prune_tree:
  assumes t: "tree_ok P S"
  shows "s \<in> set S \<Longrightarrow> length S \<le> d + pos S s \<Longrightarrow> R \<inter> sub P S s = {} \<Longrightarrow>
         \<exists>res'. prune d (tg I P S R L) s res
                  = Some (Inr (tg I P S (R \<union> rem I P S s) (L ++ lblm I P S (vis I P S s)), res'))
              \<and> map_of res' = map_of res ++ lblm I P S (vis I P S s)"
proof (induction d arbitrary: s R L res)
  case 0
  then show ?case using pos_less [of s S] by simp
next
  case (Suc d)
  have sR: "s \<notin> R" using Suc.prems(3) by (auto intro: sub.intros)
  have attrs: "node_attrs (tg I P S R L) s = Some \<lparr>val = Some (I ! s), label = L s\<rparr>"
    using Suc.prems(1) sR by (simp add: node_attrs_tg)
  have kR: "\<And>c. c \<in> set (kids P S s) \<Longrightarrow> c \<notin> R"
    using Suc.prems(3) sub_kid [OF sub_self] by fastforce
  have preds: "predecessors (tg I P S R L) s = kids P S s"
    using sR kR by (simp add: preds_tg)
  let ?res = "AList.update s (str s) res"
  have rec: "\<And>c R L res. c \<in> set (kids P S s) \<Longrightarrow> I ! c \<noteq> I ! s \<Longrightarrow> R \<inter> sub P S c = {} \<Longrightarrow>
          \<exists>res'. prune d (tg I P S R L) c res
                   = Some (Inr (tg I P S (R \<union> rem I P S c) (L ++ lblm I P S (vis I P S c)), res'))
               \<and> map_of res' = map_of res ++ lblm I P S (vis I P S c)"
  proof -
    fix c R L res
    assume c: "c \<in> set (kids P S s)" and R: "R \<inter> sub P S c = {}"
    have "length S \<le> d + pos S c" using kid_pos [OF t c] Suc.prems(2) by simp
    then show "\<exists>res'. prune d (tg I P S R L) c res
                   = Some (Inr (tg I P S (R \<union> rem I P S c) (L ++ lblm I P S (vis I P S c)), res'))
               \<and> map_of res' = map_of res ++ lblm I P S (vis I P S c)"
      using Suc.IH [OF kid_in_S [OF c] _ R] by simp
  qed
  have Rk: "R \<inter> (\<Union>c \<in> set (kids P S s). sub P S c) = {}"
    using Suc.prems(3) sub_kid by fastforce
  have d: "distinct (kids P S s)" using t by (simp add: distinct_kids tree_ok_def)
  have tx: "map_of ?res s = Some (str s)" by (simp add: update_conv')
  let ?E = "{c \<in> set (kids P S s). I ! c = I ! s}"
  let ?N = "{c \<in> set (kids P S s). I ! c \<noteq> I ! s}"
  from prune_loop_tree [OF t rec d subset_refl Rk tx, of L]
  obtain res1 where
    r: "prune_loop (prune d) (I ! s) s (kids P S s) (tg I P S R L) ?res
          = Some (Inr (tg I P S (R \<union> ?E \<union> (\<Union>c \<in> ?N. rem I P S c))
                 (L ++ lblm I P S (\<Union>c \<in> ?N. vis I P S c)), res1))"
    and m: "map_of res1 = (map_of ?res ++ lblm I P S (\<Union>c \<in> ?N. vis I P S c))
                (s \<mapsto> str s @ concat (map (\<lambda>c. '', '' @ str c) (filter (\<lambda>c. I ! c = I ! s) (kids P S s))))"
    by blast
  have E: "?E = set (eqk I P S s)" by (auto simp: in_eqk)
  have N: "?N = set (stk I P S s)" by (auto simp: in_stk)
  have R1: "R \<union> ?E \<union> (\<Union>c \<in> ?N. rem I P S c) = R \<union> rem I P S s"
    unfolding E N by (subst rem_unfold [of I P S s]) auto
  have V1: "insert s (\<Union>c \<in> ?N. vis I P S c) = vis I P S s"
    unfolding N by (rule vis_unfold [symmetric])
  have l: "map_of res1 s = Some (lbl I P S s)"
    by (simp add: m lbl_def eqk_def)
  have "s \<notin> rem I P S s" using t by (rule rem_not_self)
  then have hn: "has_node (tg I P S (R \<union> rem I P S s) (L ++ lblm I P S (\<Union>c \<in> ?N. vis I P S c))) s"
    using Suc.prems(1) sR by (simp add: has_node_tg)
  have m': "map_of res1 = map_of res ++ lblm I P S (vis I P S s)"
    unfolding m V1 [symmetric]
    by (intro ext) (auto simp: update_conv' map_add_def lblm_def lbl_def eqk_def split: option.splits)
  have "prune (Suc d) (tg I P S R L) s res
          = Some (Inr (set_label s (lbl I P S s)
               (tg I P S (R \<union> rem I P S s) (L ++ lblm I P S (\<Union>c \<in> ?N. vis I P S c))), res1))"
    using attrs preds r l hn by (simp add: R1)
  also have "set_label s (lbl I P S s)
               (tg I P S (R \<union> rem I P S s) (L ++ lblm I P S (\<Union>c \<in> ?N. vis I P S c)))
           = tg I P S (R \<union> rem I P S s) (L ++ lblm I P S (vis I P S s))"
    by (simp add: set_label_tg lblm_insert V1)
  finally show ?case using m' by blast
qed

section \<open>Valid inputs\<close>

subsection \<open>Valid input is a tree\<close>

lemma valid_cmtD:
  assumes "valid_cmt I P S"
  shows "length P = length I" "S \<noteq> []" "distinct S" "set S = {..<length I}"
    "\<And>p. p < length I \<Longrightarrow> P ! p < length I"
    "roots P = [hd S]"
    "\<And>p. p < length I \<Longrightarrow> I ! (P ! p) \<le> I ! p"
    "\<And>i. 0 < i \<Longrightarrow> i < length I \<Longrightarrow> P ! (S ! i) \<in> set (take i S)"
  using assms unfolding valid_cmt_def Let_def by auto

lemma valid_length: "valid_cmt I P S \<Longrightarrow> length S = length I"
  using valid_cmtD(3,4) [of I P S] distinct_card [of S] by simp

lemma in_tl_nth: "c \<in> set (tl S) \<Longrightarrow> \<exists>i. 0 < i \<and> i < length S \<and> S ! i = c"
proof (cases S)
  case Nil
  assume "c \<in> set (tl S)" then show ?thesis using Nil by simp
next
  case (Cons a rest)
  assume "c \<in> set (tl S)"
  then obtain j where "j < length rest" "rest ! j = c" using Cons by (auto simp: in_set_conv_nth)
  then show ?thesis using Cons by (intro exI [of _ "Suc j"]) simp
qed

lemma valid_tree_ok:
  assumes v: "valid_cmt I P S"
  shows "tree_ok P S"
proof -
  note d = valid_cmtD [OF v]
  have len: "length S = length I" using v by (rule valid_length)
  have "P ! c \<in> set S \<and> pos S (P ! c) < pos S c" if c: "c \<in> set (tl S)" for c
  proof -
    from in_tl_nth [OF c] obtain i where i: "0 < i" "i < length S" "S ! i = c" by blast
    then have "P ! c \<in> set (take i S)" using d(8) [of i] len by simp
    then obtain j where j: "j < i" "S ! j = P ! c"
      using i(2) by (auto simp: in_set_conv_nth)
    have "pos S (P ! c) = j" using pos_nth [OF d(3), of j] j i(2) by simp
    moreover have "pos S c = i" using pos_nth [OF d(3) i(2)] i(3) by simp
    moreover have "P ! c \<in> set S" using j i(2) by (metis less_trans nth_mem)
    ultimately show ?thesis using j(1) by simp
  qed
  then show ?thesis using d(2,3) by (simp add: tree_ok_def)
qed

lemma valid_indices_ok: "valid_cmt I P S \<Longrightarrow> indices_ok I P S"
  using valid_cmtD(1,4) [of I P S] by (auto simp: indices_ok_def dest: in_tl_in_set)

lemma valid_build: "valid_cmt I P S \<Longrightarrow> build I P S = Inr (tg I P S {} (\<lambda>n. None))"
  using valid_tree_ok [of I P S] valid_indices_ok [of I P S]
  by (intro build_tree) (auto simp: tree_ok_def)

lemma pos_hd: "S \<noteq> [] \<Longrightarrow> pos S (hd S) = 0"
  by (cases S) (simp_all add: pos_def)

lemma max_tree_view_tree:
  assumes v: "valid_cmt I P S" and d: "length I \<le> d"
  shows "\<exists>lab. max_tree_view d I P S
            = Some (Inr \<lparr>objs = [tg I P S {} (\<lambda>n. None),
                                 tg I P S (rem I P S (hd S)) (lblm I P S (vis I P S (hd S)))],
                        CMT = 0, MT = Suc 0, labels = lab\<rparr>)
          \<and> map_of lab = lblm I P S (vis I P S (hd S))"
proof -
  note t = valid_tree_ok [OF v]
  have ne: "S \<noteq> []" and di: "distinct S" using valid_cmtD [OF v] by auto
  obtain s0 rest where S: "S = s0 # rest" using ne by (cases S) auto
  have "hd S \<in> set S" using ne by simp
  moreover have "length S \<le> d + pos S (hd S)" using d valid_length [OF v] by simp
  ultimately obtain lab where
    p: "prune d (tg I P S {} (\<lambda>n. None)) (hd S) []
         = Some (Inr (tg I P S ({} \<union> rem I P S (hd S))
                        ((\<lambda>n. None) ++ lblm I P S (vis I P S (hd S))), lab))"
    and m: "map_of lab = map_of [] ++ lblm I P S (vis I P S (hd S))"
    using prune_tree [OF t, of "hd S" d "{}" I "\<lambda>n. None" "[]"] by auto
  have c: "\<And>a f. (case S of [] \<Rightarrow> a | x # xs \<Rightarrow> f x) = f (hd S)"
    by (simp add: S)
  have "max_tree_view d I P S
            = Some (Inr \<lparr>objs = [tg I P S {} (\<lambda>n. None),
                                 tg I P S (rem I P S (hd S)) (lblm I P S (vis I P S (hd S)))],
                        CMT = 0, MT = Suc 0, labels = lab\<rparr>)"
    unfolding max_tree_view_def valid_build [OF v] new_graph_def
    by (simp add: copy_graph_tg [OF di ne] c p)
  then show ?thesis using m by auto
qed

section \<open>What accumulate does\<close>

subsection \<open>accumulate on any graph\<close>

lemma update_same: "map_of al k = Some v \<Longrightarrow> AList.update k v al = al"
  by (induction al) (auto split: if_splits)

text \<open>The returned text does not depend on the dictionary that is passed.\<close>

lemma accumulate_loop_indep:
  assumes "\<And>p res t res' res2. p \<in> set ps \<Longrightarrow> rec p res = Some (Inr (t, res')) \<Longrightarrow>
             \<exists>res2'. rec p res2 = Some (Inr (t, res2'))"
  shows "accumulate_loop rec tot ps res = Some (Inr (t, res')) \<Longrightarrow>
         \<exists>res2'. accumulate_loop rec tot ps res2 = Some (Inr (t, res2'))"
  using assms
proof (induction ps arbitrary: tot res res2)
  case Nil
  then show ?case by simp
next
  case (Cons p ps)
  from Cons.prems(1) obtain tp rp where
    1: "rec p res = Some (Inr (tp, rp))"
    and 2: "accumulate_loop rec (tot @ '', '' @ tp) ps rp = Some (Inr (t, res'))"
    by (auto split: option.splits sum.splits)
  from Cons.prems(2) [OF _ 1, of res2] obtain rp2 where 3: "rec p res2 = Some (Inr (tp, rp2))"
    by auto
  from Cons.IH [OF 2, of rp2] Cons.prems(2) obtain r2 where
    "accumulate_loop rec (tot @ '', '' @ tp) ps rp2 = Some (Inr (t, r2))"
    by (metis list.set_intros(2))
  then show ?case using 3 by simp
qed

lemma accumulate_indep:
  "accumulate d G n res = Some (Inr (t, res')) \<Longrightarrow>
     \<exists>res2'. accumulate d G n res2 = Some (Inr (t, res2'))"
proof (induction d arbitrary: n res t res' res2)
  case 0
  then show ?case by simp
next
  case (Suc d)
  from Suc.prems obtain a lb r1 where
    a: "node_attrs G n = Some a" "label a = Some lb"
    and l: "accumulate_loop (accumulate d G) lb (predecessors G n) res = Some (Inr (t, r1))"
    by (auto split: option.splits sum.splits)
  from accumulate_loop_indep [of "predecessors G n" "accumulate d G", OF _ l, of res2] Suc.IH
  obtain r2 where "accumulate_loop (accumulate d G) lb (predecessors G n) res2 = Some (Inr (t, r2))"
    by blast
  then show ?case using a by simp
qed

text \<open>Starting from a consistent dictionary, a run keeps it consistent and only extends it.\<close>

lemma consistentD:
  "consistent G m \<Longrightarrow> m n = Some t \<Longrightarrow>
     \<exists>lb. label_of G n = Some lb \<and> set (predecessors G n) \<subseteq> dom m \<and>
          t = lb @ concat (map (\<lambda>p. '', '' @ the (m p)) (predecessors G n))"
  unfolding consistent_def by blast

lemma accumulate_loop_consistent:
  assumes "\<And>p res t res'. p \<in> set ps \<Longrightarrow> consistent G (map_of res) \<Longrightarrow>
             rec p res = Some (Inr (t, res')) \<Longrightarrow>
             consistent G (map_of res') \<and> map_of res' p = Some t \<and> map_of res \<subseteq>\<^sub>m map_of res'"
  shows "consistent G (map_of res) \<Longrightarrow> accumulate_loop rec tot ps res = Some (Inr (t, res')) \<Longrightarrow>
         consistent G (map_of res') \<and> map_of res \<subseteq>\<^sub>m map_of res' \<and> set ps \<subseteq> dom (map_of res') \<and>
         t = tot @ concat (map (\<lambda>p. '', '' @ the (map_of res' p)) ps)"
  using assms
proof (induction ps arbitrary: tot res)
  case Nil
  then show ?case by simp
next
  case (Cons p ps)
  from Cons.prems(2) obtain tp rp where
    1: "rec p res = Some (Inr (tp, rp))"
    and 2: "accumulate_loop rec (tot @ '', '' @ tp) ps rp = Some (Inr (t, res'))"
    by (auto split: option.splits sum.splits)
  from Cons.prems(3) [OF _ Cons.prems(1) 1]
  have p: "consistent G (map_of rp)" "map_of rp p = Some tp" "map_of res \<subseteq>\<^sub>m map_of rp"
    by auto
  have "consistent G (map_of res') \<and> map_of rp \<subseteq>\<^sub>m map_of res' \<and> set ps \<subseteq> dom (map_of res') \<and>
         t = (tot @ '', '' @ tp) @ concat (map (\<lambda>p. '', '' @ the (map_of res' p)) ps)"
    using Cons.prems(3) by (intro Cons.IH [OF p(1) 2]) auto
  moreover from this have "map_of res' p = Some tp"
    using p(2) by (auto simp: map_le_def dom_def)
  ultimately show ?case using p(3) by (auto intro: map_le_trans)
qed

lemma accumulate_consistent:
  "consistent G (map_of res) \<Longrightarrow> accumulate d G n res = Some (Inr (t, res')) \<Longrightarrow>
     consistent G (map_of res') \<and> map_of res' n = Some t \<and> map_of res \<subseteq>\<^sub>m map_of res'"
proof (induction d arbitrary: n res t res')
  case 0
  then show ?case by simp
next
  case (Suc d)
  from Suc.prems(2) obtain a lb r1 where
    a: "node_attrs G n = Some a" "label a = Some lb"
    and l: "accumulate_loop (accumulate d G) lb (predecessors G n) res = Some (Inr (t, r1))"
    and r: "res' = AList.update n t r1"
    by (auto split: option.splits sum.splits)
  have lab: "label_of G n = Some lb" using a by (simp add: label_of_def)
  from accumulate_loop_consistent [of "predecessors G n" G "accumulate d G", OF _ Suc.prems(1) l]
    Suc.IH
  have c1: "consistent G (map_of r1)" and le: "map_of res \<subseteq>\<^sub>m map_of r1"
    and ps: "set (predecessors G n) \<subseteq> dom (map_of r1)"
    and t: "t = lb @ concat (map (\<lambda>p. '', '' @ the (map_of r1 p)) (predecessors G n))"
    by blast+
  show ?case
  proof (cases "map_of r1 n")
    case None
    then have nn: "n \<notin> dom (map_of r1)" by (simp add: dom_def)
    have mn: "map_of res' n = Some t" by (simp add: r update_conv')
    have mo: "\<And>k. k \<noteq> n \<Longrightarrow> map_of res' k = map_of r1 k" by (simp add: r update_conv')
    have same: "map_of res' k = map_of r1 k" if "k \<in> dom (map_of r1)" for k
    proof -
      have "k \<noteq> n" using that nn by blast
      then show ?thesis by (rule mo)
    qed
    have ds: "dom (map_of r1) \<subseteq> dom (map_of res')"
      using same by (auto simp: dom_def)
    have eq: "map (\<lambda>p. '', '' @ the (map_of res' p)) (predecessors G k)
                = map (\<lambda>p. '', '' @ the (map_of r1 p)) (predecessors G k)"
      if "set (predecessors G k) \<subseteq> dom (map_of r1)" for k
      using that same by (intro map_cong) (auto simp: subset_iff)
    have "consistent G (map_of res')"
      unfolding consistent_def
    proof (intro allI impI)
      fix k tk assume k: "map_of res' k = Some tk"
      show "\<exists>lb. label_of G k = Some lb \<and> set (predecessors G k) \<subseteq> dom (map_of res') \<and>
              tk = lb @ concat (map (\<lambda>p. '', '' @ the (map_of res' p)) (predecessors G k))"
      proof (cases "k = n")
        case True
        have "tk = t" using k mn True by simp
        then have "tk = lb @ concat (map (\<lambda>p. '', '' @ the (map_of res' p)) (predecessors G n))"
          using t by (simp only: eq [OF ps])
        moreover have "set (predecessors G n) \<subseteq> dom (map_of res')" using ps ds by blast
        ultimately show ?thesis using True lab by blast
      next
        case False
        then have k1: "map_of r1 k = Some tk" using k mo by simp
        from consistentD [OF c1 k1] obtain lk where
          lk: "label_of G k = Some lk" "set (predecessors G k) \<subseteq> dom (map_of r1)"
          "tk = lk @ concat (map (\<lambda>p. '', '' @ the (map_of r1 p)) (predecessors G k))"
          by blast
        have "tk = lk @ concat (map (\<lambda>p. '', '' @ the (map_of res' p)) (predecessors G k))"
          using lk(3) by (simp only: eq [OF lk(2)])
        moreover have "set (predecessors G k) \<subseteq> dom (map_of res')" using lk(2) ds by blast
        ultimately show ?thesis using lk(1) by blast
      qed
    qed
    moreover have "map_of res \<subseteq>\<^sub>m map_of res'"
      using le same by (auto simp: map_le_def dom_def)
    ultimately show ?thesis using mn by simp
  next
    case (Some told)
    from consistentD [OF c1 Some] lab t have "told = t" by auto
    then have "res' = r1" using Some by (simp add: r update_same)
    then show ?thesis using c1 le Some \<open>told = t\<close> by simp
  qed
qed

lemma update_new: "map_of al k = None \<Longrightarrow> AList.update k v al = al @ [(k, v)]"
  by (induction al) (auto split: if_splits)

lemma accumulate_Suc_cases:
  assumes c: "consistent G (map_of res)"
    and a: "accumulate (Suc d) G n res = Some (Inr (t, res'))"
  obtains lb r1 where
    "label_of G n = Some lb"
    "accumulate_loop (accumulate d G) lb (predecessors G n) res = Some (Inr (t, r1))"
    "consistent G (map_of r1)" "map_of res \<subseteq>\<^sub>m map_of r1"
    "set (predecessors G n) \<subseteq> dom (map_of r1)"
    "t = lb @ concat (map (\<lambda>p. '', '' @ the (map_of r1 p)) (predecessors G n))"
    "(map_of r1 n = None \<and> res' = r1 @ [(n, t)]) \<or> (map_of r1 n = Some t \<and> res' = r1)"
proof -
  from a obtain at lb r1 where
    at: "node_attrs G n = Some at" "label at = Some lb"
    and l: "accumulate_loop (accumulate d G) lb (predecessors G n) res = Some (Inr (t, r1))"
    and r: "res' = AList.update n t r1"
    by (auto split: option.splits sum.splits)
  have lab: "label_of G n = Some lb" using at by (simp add: label_of_def)
  from accumulate_loop_consistent [of "predecessors G n" G "accumulate d G", OF _ c l]
    accumulate_consistent [of G _ d]
  have c1: "consistent G (map_of r1)" and le: "map_of res \<subseteq>\<^sub>m map_of r1"
    and ps: "set (predecessors G n) \<subseteq> dom (map_of r1)"
    and t: "t = lb @ concat (map (\<lambda>p. '', '' @ the (map_of r1 p)) (predecessors G n))"
    by blast+
  have "(map_of r1 n = None \<and> res' = r1 @ [(n, t)]) \<or> (map_of r1 n = Some t \<and> res' = r1)"
  proof (cases "map_of r1 n")
    case None
    then show ?thesis by (simp add: r update_new)
  next
    case (Some told)
    from consistentD [OF c1 Some] lab t have "told = t" by auto
    then show ?thesis using Some by (simp add: r update_same)
  qed
  then show ?thesis using that lab l c1 le ps t by blast
qed

subsection \<open>Children before parents\<close>

lemma post_order_from_snoc:
  "post_order_from G seen (xs @ [kv]) \<longleftrightarrow>
     post_order_from G seen xs \<and> set (predecessors G (fst kv)) \<subseteq> set seen \<union> fst ` set xs"
  by (induction xs arbitrary: seen) auto

lemma post_order_snoc:
  "post_order G (xs @ [(k, v)]) \<longleftrightarrow>
     post_order G xs \<and> set (predecessors G k) \<subseteq> dom (map_of xs)"
  by (simp add: post_order_def post_order_from_snoc dom_map_of_conv_image_fst)

lemma accumulate_loop_post_order:
  assumes "\<And>p res t res'. p \<in> set ps \<Longrightarrow> consistent G (map_of res) \<Longrightarrow> post_order G res \<Longrightarrow>
             accumulate d G p res = Some (Inr (t, res')) \<Longrightarrow> post_order G res'"
  shows "consistent G (map_of res) \<Longrightarrow> post_order G res \<Longrightarrow>
         accumulate_loop (accumulate d G) tot ps res = Some (Inr (t, res')) \<Longrightarrow> post_order G res'"
  using assms
proof (induction ps arbitrary: tot res)
  case Nil
  then show ?case by simp
next
  case (Cons p ps)
  from Cons.prems(3) obtain tp rp where
    1: "accumulate d G p res = Some (Inr (tp, rp))"
    and 2: "accumulate_loop (accumulate d G) (tot @ '', '' @ tp) ps rp = Some (Inr (t, res'))"
    by (auto split: option.splits sum.splits)
  have c: "consistent G (map_of rp)" using accumulate_consistent [OF Cons.prems(1) 1] by simp
  have po: "post_order G rp" using Cons.prems(4) [OF _ Cons.prems(1,2) 1] by simp
  show ?case using Cons.prems(4) by (intro Cons.IH [OF c po 2]) auto
qed

lemma accumulate_post_order:
  "consistent G (map_of res) \<Longrightarrow> post_order G res \<Longrightarrow>
     accumulate d G n res = Some (Inr (t, res')) \<Longrightarrow> post_order G res'"
proof (induction d arbitrary: n res t res')
  case 0
  then show ?case by simp
next
  case (Suc d)
  from Suc.prems(1,3) show ?case
  proof (rule accumulate_Suc_cases)
    fix lb r1
    assume l: "accumulate_loop (accumulate d G) lb (predecessors G n) res = Some (Inr (t, r1))"
      and ps: "set (predecessors G n) \<subseteq> dom (map_of r1)"
      and cs: "(map_of r1 n = None \<and> res' = r1 @ [(n, t)]) \<or> (map_of r1 n = Some t \<and> res' = r1)"
    have "post_order G r1"
      using accumulate_loop_post_order [OF _ Suc.prems(1,2) l] Suc.IH by blast
    then show "post_order G res'" using cs ps by (auto simp: post_order_snoc)
  qed
qed

subsection \<open>Running again on the dictionary a run has filled\<close>

lemma accumulate_loop_rerun:
  assumes "\<And>p res t res'. p \<in> set ps \<Longrightarrow> consistent G (map_of res) \<Longrightarrow>
             accumulate d G p res = Some (Inr (t, res')) \<Longrightarrow> map_of res' \<subseteq>\<^sub>m map_of R \<Longrightarrow>
             accumulate d G p R = Some (Inr (t, R))"
  shows "consistent G (map_of res) \<Longrightarrow>
         accumulate_loop (accumulate d G) tot ps res = Some (Inr (t, res')) \<Longrightarrow>
         map_of res' \<subseteq>\<^sub>m map_of R \<Longrightarrow>
         accumulate_loop (accumulate d G) tot ps R = Some (Inr (t, R))"
  using assms
proof (induction ps arbitrary: tot res)
  case Nil
  then show ?case by simp
next
  case (Cons p ps)
  from Cons.prems(2) obtain tp rp where
    1: "accumulate d G p res = Some (Inr (tp, rp))"
    and 2: "accumulate_loop (accumulate d G) (tot @ '', '' @ tp) ps rp = Some (Inr (t, res'))"
    by (auto split: option.splits sum.splits)
  have c: "consistent G (map_of rp)" using accumulate_consistent [OF Cons.prems(1) 1] by simp
  have "map_of rp \<subseteq>\<^sub>m map_of res'"
    using accumulate_loop_consistent [of ps G "accumulate d G", OF _ c 2]
      accumulate_consistent [of G _ d] by blast
  then have le: "map_of rp \<subseteq>\<^sub>m map_of R" using Cons.prems(3) by (rule map_le_trans)
  have 3: "accumulate d G p R = Some (Inr (tp, R))"
    using Cons.prems(4) [OF _ Cons.prems(1) 1 le] by simp
  have "accumulate_loop (accumulate d G) (tot @ '', '' @ tp) ps R = Some (Inr (t, R))"
    using Cons.prems(4) by (intro Cons.IH [OF c 2 Cons.prems(3)]) auto
  then show ?case using 3 by simp
qed

lemma accumulate_rerun:
  "consistent G (map_of res) \<Longrightarrow> accumulate d G n res = Some (Inr (t, res')) \<Longrightarrow>
     map_of res' \<subseteq>\<^sub>m map_of R \<Longrightarrow> accumulate d G n R = Some (Inr (t, R))"
proof (induction d arbitrary: n res t res')
  case 0
  then show ?case by simp
next
  case (Suc d)
  from Suc.prems(1,2) show ?case
  proof (rule accumulate_Suc_cases)
    fix lb r1
    assume lab: "label_of G n = Some lb"
      and l: "accumulate_loop (accumulate d G) lb (predecessors G n) res = Some (Inr (t, r1))"
      and cs: "(map_of r1 n = None \<and> res' = r1 @ [(n, t)]) \<or> (map_of r1 n = Some t \<and> res' = r1)"
    have n: "map_of res' n = Some t" using cs by (auto simp: map_add_def)
    have "map_of r1 \<subseteq>\<^sub>m map_of res'"
      using cs by (auto simp: map_le_def map_add_def dom_def split: option.splits)
    then have le: "map_of r1 \<subseteq>\<^sub>m map_of R" using Suc.prems(3) by (rule map_le_trans)
    have l': "accumulate_loop (accumulate d G) lb (predecessors G n) R = Some (Inr (t, R))"
      using accumulate_loop_rerun [OF _ Suc.prems(1) l le] Suc.IH by blast
    have "map_of R n = Some t" using n Suc.prems(3) by (auto simp: map_le_def dom_def)
    then have u: "AList.update n t R = R" by (rule update_same)
    obtain at where "node_attrs G n = Some at" "label at = Some lb"
      using lab by (auto simp: label_of_def split: option.splits)
    then show "accumulate (Suc d) G n R = Some (Inr (t, R))" using l' u by simp
  qed
qed

section \<open>The derived views of a tree\<close>

subsection \<open>The pruned graph of a tree\<close>

lemma vis_in_S: "n \<in> vis I P S s \<Longrightarrow> s \<in> set S \<Longrightarrow> n \<in> set S"
  by (induction rule: vis.induct) (auto dest: in_tl_in_set)

lemma value_of_tg:
  "value_of (tg I P S R L) n = (if n \<in> set S \<and> n \<notin> R then Some (I ! n) else None)"
  by (simp add: value_of_def node_attrs_tg)

lemma label_of_tg:
  "label_of (tg I P S R L) n = (if n \<in> set S \<and> n \<notin> R then L n else None)"
  by (simp add: label_of_def node_attrs_tg)

lemma in_edges_tg:
  "(c, p) \<in> set (edges (tg I P S R L)) \<longleftrightarrow> c \<in> set (tl S) \<and> p = P ! c \<and> c \<notin> R \<and> p \<notin> R"
  by (auto simp: tg_def)

lemma nodes_tg_length: "length (nodes (tg I P S R L)) \<le> length S"
  by (simp add: tg_def)

lemma label_of_pruned:
  assumes t: "tree_ok P S"
  shows "label_of (tg I P S (rem I P S (hd S)) (lblm I P S (vis I P S (hd S)))) n
           = (if n \<in> vis I P S (hd S) then Some (lbl I P S n) else None)"
proof (cases "n \<in> vis I P S (hd S)")
  case True
  have "hd S \<in> set S" using t by (simp add: tree_ok_def)
  then have "n \<in> set S" using True vis_in_S by blast
  moreover have "n \<notin> rem I P S (hd S)" using True t by (rule vis_rem_disjoint)
  ultimately show ?thesis using True by (simp add: label_of_tg lblm_def)
next
  case False
  then show ?thesis by (simp add: label_of_tg lblm_def)
qed

lemma preds_pruned:
  assumes t: "tree_ok P S" and n: "n \<in> vis I P S (hd S)"
  shows "predecessors (tg I P S (rem I P S (hd S)) L) n = stk I P S n"
proof -
  have "n \<notin> rem I P S (hd S)" using n t by (rule vis_rem_disjoint)
  moreover have "filter (\<lambda>c. c \<notin> rem I P S (hd S)) (kids P S n) = stk I P S n"
    unfolding stk_def using n by (intro filter_cong) (auto simp: rem_def in_kids)
  ultimately show ?thesis by (simp add: preds_tg)
qed

lemma stk_vis: "n \<in> vis I P S r \<Longrightarrow> c \<in> set (stk I P S n) \<Longrightarrow> c \<in> vis I P S r"
  by (auto simp: in_stk in_kids intro: vis.intros)

subsection \<open>accumulate on the pruned graph\<close>

lemma accumulate_loop_returns:
  assumes "\<And>p res. p \<in> set ps \<Longrightarrow> \<exists>t res'. rec p res = Some (Inr (t, res'))"
  shows "\<exists>t res'. accumulate_loop rec tot ps res = Some (Inr (t, res'))"
  using assms
proof (induction ps arbitrary: tot res)
  case Nil
  then show ?case by simp
next
  case (Cons p ps)
  from Cons.prems [of p res] obtain tp rp where 1: "rec p res = Some (Inr (tp, rp))" by auto
  from Cons.IH [of "tot @ '', '' @ tp" rp] Cons.prems obtain t r where
    "accumulate_loop rec (tot @ '', '' @ tp) ps rp = Some (Inr (t, r))" by auto
  then show ?case using 1 by simp
qed

lemma accumulate_tree_returns:
  assumes t: "tree_ok P S"
  shows "n \<in> vis I P S (hd S) \<Longrightarrow> length S \<le> d + pos S n \<Longrightarrow>
         \<exists>t res'. accumulate d (tg I P S (rem I P S (hd S)) (lblm I P S (vis I P S (hd S)))) n res
                    = Some (Inr (t, res'))"
proof (induction d arbitrary: n res)
  case 0
  have "hd S \<in> set S" using t by (simp add: tree_ok_def)
  then have "n \<in> set S" using 0(1) vis_in_S by blast
  then show ?case using 0(2) pos_less [of n S] by simp
next
  case (Suc d)
  let ?G = "tg I P S (rem I P S (hd S)) (lblm I P S (vis I P S (hd S)))"
  have lab: "label_of ?G n = Some (lbl I P S n)"
    using Suc.prems(1) by (simp add: label_of_pruned [OF t])
  then obtain a where a: "node_attrs ?G n = Some a" "label a = Some (lbl I P S n)"
    by (auto simp: label_of_def split: option.splits)
  have ps: "predecessors ?G n = stk I P S n" using t Suc.prems(1) by (rule preds_pruned)
  have "\<exists>t res'. accumulate d ?G c res = Some (Inr (t, res'))" if c: "c \<in> set (stk I P S n)" for c res
  proof -
    have "c \<in> vis I P S (hd S)" using Suc.prems(1) c by (rule stk_vis)
    moreover have "pos S n < pos S c" using c kid_pos [OF t] by (simp add: in_stk)
    ultimately show ?thesis using Suc.IH [of c res] Suc.prems(2) by simp
  qed
  from accumulate_loop_returns [of "stk I P S n" "accumulate d ?G", OF this]
  obtain tt r1 where
    "accumulate_loop (accumulate d ?G) (lbl I P S n) (stk I P S n) res = Some (Inr (tt, r1))"
    by blast
  then show ?case using a ps by simp
qed

text \<open>The pixels a cumulative text lists: all pixels reached or removed below its node.\<close>

lemma idxs_lbl: "idxs (lbl I P S n) = n # eqk I P S n"
  by (simp add: lbl_def)

lemma cumulative_pixels:
  assumes t: "tree_ok P S"
    and c: "consistent (tg I P S (rem I P S (hd S)) (lblm I P S (vis I P S (hd S)))) m"
  shows "m n = Some tx \<Longrightarrow> set (idxs tx) = vis I P S n \<union> rem I P S n"
proof (induction "length S - pos S n" arbitrary: n tx rule: less_induct)
  case less
  let ?G = "tg I P S (rem I P S (hd S)) (lblm I P S (vis I P S (hd S)))"
  from consistentD [OF c less.prems] obtain lb where
    lb: "label_of ?G n = Some lb" and ps: "set (predecessors ?G n) \<subseteq> dom m"
    and tx: "tx = lb @ concat (map (\<lambda>p. '', '' @ the (m p)) (predecessors ?G n))"
    by blast
  have nv: "n \<in> vis I P S (hd S)" and lb': "lb = lbl I P S n"
    using lb by (auto simp: label_of_pruned [OF t] split: if_splits)
  have pr: "predecessors ?G n = stk I P S n" using t nv by (rule preds_pruned)
  have "hd S \<in> set S" using t by (simp add: tree_ok_def)
  then have nS: "n \<in> set S" using nv vis_in_S by blast
  have kid: "set (idxs (the (m k))) = vis I P S k \<union> rem I P S k" if k: "k \<in> set (stk I P S n)" for k
  proof -
    obtain tk where tk: "m k = Some tk" using ps k pr by auto
    have "pos S n < pos S k" using k kid_pos [OF t] by (simp add: in_stk)
    moreover have "pos S k < length S"
    proof -
      have "k \<in> set (kids P S n)" using k by (simp add: in_stk)
      then have "k \<in> set S" by (rule kid_in_S)
      then show ?thesis by (rule pos_less)
    qed
    ultimately have "length S - pos S k < length S - pos S n" by simp
    from less.hyps [OF this tk] show ?thesis using tk by simp
  qed
  have "set (idxs tx) = insert n (set (eqk I P S n)) \<union> (\<Union>k \<in> set (stk I P S n). set (idxs (the (m k))))"
    by (simp add: tx lb' pr idxs_lbl)
  also have "\<dots> = insert n (set (eqk I P S n)) \<union> (\<Union>k \<in> set (stk I P S n). vis I P S k \<union> rem I P S k)"
    using kid by simp
  also have "\<dots> = vis I P S n \<union> rem I P S n"
    by (subst vis_unfold [of I P S n], subst rem_unfold [of I P S n]) auto
  finally show ?case .
qed

lemma consistent_empty: "consistent G (map_of [])"
  by (simp add: consistent_def)

lemma post_order_empty: "post_order G []"
  by (simp add: post_order_def)

lemma derive_views_tree:
  assumes v: "valid_cmt I P S" and d: "length I \<le> d"
  shows "\<exists>lab ct tt. derive_views d I P S
            = Some (Inr \<lparr>objs = [tg I P S {} (\<lambda>n. None),
                                 tg I P S (rem I P S (hd S)) (lblm I P S (vis I P S (hd S)))],
                        CMT = 0, MT = Suc 0, labels = lab, labels_ct = ct, total = tt\<rparr>)
          \<and> map_of lab = lblm I P S (vis I P S (hd S))
          \<and> consistent (tg I P S (rem I P S (hd S)) (lblm I P S (vis I P S (hd S)))) (map_of ct)
          \<and> post_order (tg I P S (rem I P S (hd S)) (lblm I P S (vis I P S (hd S)))) ct
          \<and> map_of ct (hd S) = Some tt"
proof -
  let ?G = "tg I P S (rem I P S (hd S)) (lblm I P S (vis I P S (hd S)))"
  note t = valid_tree_ok [OF v]
  have ne: "S \<noteq> []" using valid_cmtD [OF v] by auto
  have c: "\<And>a f. (case S of [] \<Rightarrow> a | x # xs \<Rightarrow> f x) = f (hd S)"
    using ne by (cases S) auto
  from max_tree_view_tree [OF v d] obtain lab where
    m: "max_tree_view d I P S
          = Some (Inr \<lparr>objs = [tg I P S {} (\<lambda>n. None), ?G], CMT = 0, MT = Suc 0, labels = lab\<rparr>)"
    and lab: "map_of lab = lblm I P S (vis I P S (hd S))"
    by blast
  have "length S \<le> d + pos S (hd S)" using d valid_length [OF v] by simp
  from accumulate_tree_returns [OF t vis_self this, of I "[]"] obtain tt ct where
    a: "accumulate d ?G (hd S) [] = Some (Inr (tt, ct))" by blast
  have 1: "consistent ?G (map_of ct)" and 2: "map_of ct (hd S) = Some tt"
    using accumulate_consistent [OF consistent_empty a] by auto
  have 3: "post_order ?G ct"
    using accumulate_post_order [OF consistent_empty post_order_empty a] .
  have "derive_views d I P S
            = Some (Inr \<lparr>objs = [tg I P S {} (\<lambda>n. None), ?G],
                        CMT = 0, MT = Suc 0, labels = lab, labels_ct = ct, total = tt\<rparr>)"
    by (simp add: derive_views_def m component_tree_view_def c a)
  then show ?thesis using lab 1 2 3 by blast
qed

subsection \<open>Flat levels: every pixel is reached or removed\<close>

lemma roots_iff: "roots P = [r] \<Longrightarrow> p < length P \<Longrightarrow> P ! p = p \<longleftrightarrow> p = r"
proof -
  assume r: "roots P = [r]" and p: "p < length P"
  have "p \<in> set (roots P) \<longleftrightarrow> P ! p = p" using p by (simp add: roots_def)
  then show ?thesis using r by simp
qed

lemma tl_not_root:
  assumes v: "valid_cmt I P S" and c: "c \<in> set (tl S)"
  shows "c \<noteq> hd S" "P ! c \<noteq> c" "c < length I" "c \<in> set S"
proof -
  note d = valid_cmtD [OF v]
  show 1: "c \<noteq> hd S" using hd_notin_tl [OF d(3) d(2)] c by auto
  show 3: "c \<in> set S" using c by (rule in_tl_in_set)
  then show 2: "c < length I" using d(4) by simp
  then show "P ! c \<noteq> c" using roots_iff [OF d(6), of c] d(1) 1 by simp
qed

lemma in_S_cases: "S \<noteq> [] \<Longrightarrow> n \<in> set S \<Longrightarrow> n = hd S \<or> n \<in> set (tl S)"
  by (cases S) auto

lemma flat_parent_vis:
  assumes v: "valid_cmt I P S" and f: "flat_levels I P"
  shows "c \<in> set (tl S) \<Longrightarrow> P ! c \<in> vis I P S (hd S)"
proof (induction "pos S c" arbitrary: c rule: less_induct)
  case less
  note d = valid_cmtD [OF v]
  note t = valid_tree_ok [OF v]
  let ?p = "P ! c"
  have c: "c \<noteq> hd S" "P ! c \<noteq> c" "c < length I" using tl_not_root [OF v less.prems] by auto
  have pS: "?p \<in> set S" using t less.prems by (simp add: tree_ok_def)
  show ?case
  proof (cases "?p = hd S")
    case True
    then show ?thesis by (simp add: vis_self)
  next
    case False
    then have ptl: "?p \<in> set (tl S)" using in_S_cases [OF d(2) pS] by simp
    have "pos S ?p < pos S c" using t less.prems by (simp add: tree_ok_def)
    from less.hyps [OF this ptl] have gv: "P ! ?p \<in> vis I P S (hd S)" .
    have "?p < length I" using pS d(4) by simp
    then have "P ! ?p \<noteq> ?p" using roots_iff [OF d(6), of ?p] d(1) False by simp
    moreover have "P ! c = c \<or> P ! ?p = ?p \<or> I ! (P ! ?p) < I ! ?p"
      using f c(3) by (simp add: flat_levels_def)
    ultimately have ne: "I ! ?p \<noteq> I ! (P ! ?p)" using c(2) by auto
    show ?thesis using ptl gv ne by (rule vis_step)
  qed
qed

lemma flat_all_pixels:
  assumes v: "valid_cmt I P S" and f: "flat_levels I P"
  shows "vis I P S (hd S) \<union> rem I P S (hd S) = set S"
proof (intro set_eqI iffI)
  fix n assume "n \<in> vis I P S (hd S) \<union> rem I P S (hd S)"
  moreover have "hd S \<in> set S" using valid_cmtD(2) [OF v] by simp
  ultimately show "n \<in> set S" by (auto dest: vis_in_S simp: rem_def in_tl_in_set)
next
  fix n assume n: "n \<in> set S"
  have ne: "S \<noteq> []" using valid_cmtD [OF v] by simp
  show "n \<in> vis I P S (hd S) \<union> rem I P S (hd S)"
  proof (cases "n = hd S")
    case True
    then show ?thesis by (simp add: vis_self)
  next
    case False
    then have ntl: "n \<in> set (tl S)" using in_S_cases [OF ne n] by simp
    have "P ! n \<in> vis I P S (hd S)" using v f ntl by (rule flat_parent_vis)
    then show ?thesis using ntl by (cases "I ! n = I ! (P ! n)") (auto simp: rem_def intro: vis_step)
  qed
qed

lemma rem_as_union: "rem I P S s = (\<Union>n \<in> vis I P S s. set (eqk I P S n))"
proof (intro set_eqI iffI)
  fix c assume "c \<in> rem I P S s"
  then have "c \<in> set (tl S)" "P ! c \<in> vis I P S s" "I ! c = I ! (P ! c)"
    by (simp_all add: rem_def)
  then have "c \<in> set (eqk I P S (P ! c))" by (simp add: in_eqk in_kids)
  then show "c \<in> (\<Union>n \<in> vis I P S s. set (eqk I P S n))"
    using \<open>P ! c \<in> vis I P S s\<close> by blast
next
  fix c assume "c \<in> (\<Union>n \<in> vis I P S s. set (eqk I P S n))"
  then obtain n where n: "n \<in> vis I P S s" "c \<in> set (eqk I P S n)" by blast
  then have "c \<in> set (tl S)" "P ! c = n" "I ! c = I ! n" by (simp_all add: in_eqk in_kids)
  then show "c \<in> rem I P S s" using n(1) by (simp add: rem_def)
qed

subsection \<open>The labels of the pruned graph\<close>

lemma label_idxs_tg:
  "label_idxs (tg I P S R (lblm I P S V))
     = map (\<lambda>n. n # eqk I P S n) (filter (\<lambda>n. n \<in> V) (filter (\<lambda>n. n \<notin> R) S))"
proof -
  have "label_idxs (tg I P S R (lblm I P S V))
          = concat (map (\<lambda>n. if n \<in> V then [n # eqk I P S n] else []) (filter (\<lambda>n. n \<notin> R) S))"
    unfolding label_idxs_def tg_def
    by (simp add: comp_def, intro arg_cong [where f = concat] map_cong)
       (auto simp: lblm_def idxs_lbl)
  then show ?thesis by (simp only: concat_map_if)
qed

lemma label_idxs_pruned:
  assumes t: "tree_ok P S"
  shows "label_idxs (tg I P S (rem I P S (hd S)) (lblm I P S (vis I P S (hd S))))
           = map (\<lambda>n. n # eqk I P S n) (filter (\<lambda>n. n \<in> vis I P S (hd S)) S)"
proof -
  have "filter (\<lambda>n. n \<in> vis I P S (hd S)) (filter (\<lambda>n. n \<notin> rem I P S (hd S)) S)
          = filter (\<lambda>n. n \<in> vis I P S (hd S)) S"
    using vis_rem_disjoint [OF _ t] by (auto intro: filter_cong)
  then show ?thesis by (simp add: label_idxs_tg)
qed

lemma eqk_not_self: "tree_ok P S \<Longrightarrow> n \<notin> set (eqk I P S n)"
  using kid_pos [of P S n n] by (auto simp: in_eqk)

lemma distinct_eqk: "tree_ok P S \<Longrightarrow> distinct (eqk I P S n)"
  by (simp add: eqk_def distinct_kids tree_ok_def)

lemma eqk_in_rem: "n \<in> vis I P S s \<Longrightarrow> c \<in> set (eqk I P S n) \<Longrightarrow> c \<in> rem I P S s"
  by (simp add: rem_as_union) blast

lemma labels_distinct:
  assumes t: "tree_ok P S"
  shows "distinct (concat (map (\<lambda>n. n # eqk I P S n) (filter (\<lambda>n. n \<in> vis I P S (hd S)) S)))"
proof (rule distinct_concat)
  have "distinct (filter (\<lambda>n. n \<in> vis I P S (hd S)) S)" using t by (simp add: tree_ok_def)
  moreover have "inj_on (\<lambda>n. n # eqk I P S n) A" for A by (simp add: inj_on_def)
  ultimately show "distinct (map (\<lambda>n. n # eqk I P S n) (filter (\<lambda>n. n \<in> vis I P S (hd S)) S))"
    by (simp add: distinct_map)
next
  fix ys assume "ys \<in> set (map (\<lambda>n. n # eqk I P S n) (filter (\<lambda>n. n \<in> vis I P S (hd S)) S))"
  then obtain n where "ys = n # eqk I P S n" by auto
  then show "distinct ys" using eqk_not_self [OF t] distinct_eqk [OF t] by simp
next
  fix ys zs
  assume "ys \<in> set (map (\<lambda>n. n # eqk I P S n) (filter (\<lambda>n. n \<in> vis I P S (hd S)) S))"
    and "zs \<in> set (map (\<lambda>n. n # eqk I P S n) (filter (\<lambda>n. n \<in> vis I P S (hd S)) S))"
    and ne: "ys \<noteq> zs"
  then obtain n k where n: "ys = n # eqk I P S n" "n \<in> vis I P S (hd S)"
    and k: "zs = k # eqk I P S k" "k \<in> vis I P S (hd S)"
    by auto
  have nk: "n \<noteq> k" using ne n(1) k(1) by auto
  have 1: "n \<notin> set (eqk I P S k)"
    using eqk_in_rem [OF k(2), of n] vis_rem_disjoint [OF n(2) t] by blast
  have 2: "k \<notin> set (eqk I P S n)"
    using eqk_in_rem [OF n(2), of k] vis_rem_disjoint [OF k(2) t] by blast
  have 3: "set (eqk I P S n) \<inter> set (eqk I P S k) = {}"
    using nk by (auto simp: in_eqk in_kids)
  show "set ys \<inter> set zs = {}" using nk 1 2 3 by (auto simp: n(1) k(1))
qed

lemma labels_cover:
  assumes t: "tree_ok P S"
  shows "set (concat (map (\<lambda>n. n # eqk I P S n) (filter (\<lambda>n. n \<in> vis I P S (hd S)) S)))
           = vis I P S (hd S) \<union> rem I P S (hd S)"
proof -
  have "hd S \<in> set S" using t by (simp add: tree_ok_def)
  then have "\<And>n. n \<in> vis I P S (hd S) \<Longrightarrow> n \<in> set S" using vis_in_S by blast
  then show ?thesis by (auto simp: rem_as_union)
qed

lemma root_minimal:
  assumes v: "valid_cmt I P S"
  shows "n \<in> set S \<Longrightarrow> I ! (hd S) \<le> I ! n"
proof (induction "pos S n" arbitrary: n rule: less_induct)
  case less
  note d = valid_cmtD [OF v]
  note t = valid_tree_ok [OF v]
  show ?case
  proof (cases "n = hd S")
    case True
    then show ?thesis by simp
  next
    case False
    then have ntl: "n \<in> set (tl S)" using in_S_cases [OF d(2) less.prems] by simp
    then have p: "P ! n \<in> set S" "pos S (P ! n) < pos S n" using t by (simp_all add: tree_ok_def)
    have "I ! (hd S) \<le> I ! (P ! n)" using less.hyps [OF p(2) p(1)] .
    moreover have "I ! (P ! n) \<le> I ! n" using d(7) [of n] d(4) less.prems by simp
    ultimately show ?thesis by simp
  qed
qed

lemma example_valid: "valid_cmt [2, 2, 1, 3] [2, 0, 2, 0] [2, 0, 1, 3]"
  by code_simp

lemma example_flat: "flat_levels [2, 2, 1, 3] [2, 0, 2, 0]"
  by code_simp

lemma pruned_objs:
  assumes v: "valid_cmt I P S" and d: "length I \<le> d"
  obtains st where "max_tree_view d I P S = Some (Inr st)"
    "objs st ! CMT st = tg I P S {} (\<lambda>n. None)"
    "objs st ! MT st = tg I P S (rem I P S (hd S)) (lblm I P S (vis I P S (hd S)))"
    "map_of (labels st) = lblm I P S (vis I P S (hd S))"
proof -
  from max_tree_view_tree [OF v d] obtain lab where
    m: "max_tree_view d I P S
          = Some (Inr \<lparr>objs = [tg I P S {} (\<lambda>n. None),
                               tg I P S (rem I P S (hd S)) (lblm I P S (vis I P S (hd S)))],
                      CMT = 0, MT = Suc 0, labels = lab\<rparr>)"
    and lab: "map_of lab = lblm I P S (vis I P S (hd S))"
    by blast
  show ?thesis by (rule that [OF m]) (simp_all add: lab)
qed

lemma vis_parent:
  assumes t: "tree_ok P S" and c: "c \<in> vis I P S (hd S)" "c \<in> set (tl S)"
  shows "P ! c \<in> vis I P S (hd S)"
proof -
  have "c \<noteq> hd S" using hd_notin_tl [of S] t c(2) by (auto simp: tree_ok_def)
  then show ?thesis using c(1) by (auto elim: vis.cases)
qed

section \<open>The pruned max-tree\<close>

text \<open>
  Claim C2, as stated: for every valid canonical max-tree the labels of the pruned tree
  partition the pixels. The chain 2 -> 1 -> 0 of three pixels of value 1 is valid;
  \<^verbatim>\<open>prune\<close> merges pixel 1 into the root and removes it, which cuts pixel 2 off: it stays
  in the graph without a label, and the labels list the pixels 0 and 1 only.
\<close>

theorem prune_chain_loses_pixel:
  "valid_cmt [1, 1, 1] [0, 0, 1] [0, 1, 2] \<and>
   max_tree_view 3 [1, 1, 1] [0, 0, 1] [0, 1, 2] =
     Some (Inr \<lparr>objs =
       [\<lparr>nodes = [(0, \<lparr>val = Some 1, label = None\<rparr>), (1, \<lparr>val = Some 1, label = None\<rparr>),
                  (2, \<lparr>val = Some 1, label = None\<rparr>)],
         edges = [(1, 0), (2, 1)]\<rparr>,
        \<lparr>nodes = [(0, \<lparr>val = Some 1, label = Some ''0, 1''\<rparr>),
                  (2, \<lparr>val = Some 1, label = None\<rparr>)],
         edges = []\<rparr>],
       CMT = 0, MT = 1, labels = [(0, ''0, 1'')]\<rparr>) \<and>
   label_idxs \<lparr>nodes = [(0, \<lparr>val = Some 1, label = Some ''0, 1''\<rparr>),
                        (2, \<lparr>val = Some 1, label = None\<rparr>)],
               edges = []\<rparr> = [[0, 1]]"
  by code_simp

text \<open>
  Claim C2, amended: for every valid canonical max-tree with flat levels (no pixel that has
  the value of its parent is itself a parent, as in the trees \<^verbatim>\<open>max_tree\<close> returns) and
  with recursion depth for its N pixels, \<^verbatim>\<open>prune\<close> returns, the pruned graph has at most N
  nodes, and every pixel of \<open>0..<N\<close> occurs exactly once in the labels of its nodes.
\<close>

theorem prune_partitions_flat_tree:
  assumes "valid_cmt image_rav P_rav S" and "flat_levels image_rav P_rav"
    and "length image_rav \<le> d"
  shows "\<exists>st. max_tree_view d image_rav P_rav S = Some (Inr st) \<and>
              length (nodes (objs st ! MT st)) \<le> length image_rav \<and>
              distinct (concat (label_idxs (objs st ! MT st))) \<and>
              set (concat (label_idxs (objs st ! MT st))) = {..<length image_rav}"
proof -
  note t = valid_tree_ok [OF assms(1)]
  from pruned_objs [OF assms(1,3)] obtain st where
    st: "max_tree_view d image_rav P_rav S = Some (Inr st)"
    and mt: "objs st ! MT st = tg image_rav P_rav S (rem image_rav P_rav S (hd S))
               (lblm image_rav P_rav S (vis image_rav P_rav S (hd S)))"
    by blast
  have "length (nodes (objs st ! MT st)) \<le> length image_rav"
    using nodes_tg_length [of image_rav P_rav S] valid_length [OF assms(1)] by (simp add: mt)
  moreover have "distinct (concat (label_idxs (objs st ! MT st)))"
    by (simp only: mt label_idxs_pruned [OF t] labels_distinct [OF t])
  moreover have "set (concat (label_idxs (objs st ! MT st))) = {..<length image_rav}"
    by (simp only: mt label_idxs_pruned [OF t] labels_cover [OF t]
          flat_all_pixels [OF assms(1,2)] valid_cmtD(4) [OF assms(1)])
  ultimately show ?thesis using st by blast
qed

theorem prune_partitions_flat_tree_witness:
  "valid_cmt [2, 2, 1, 3] [2, 0, 2, 0] [2, 0, 1, 3] \<and> flat_levels [2, 2, 1, 3] [2, 0, 2, 0] \<and>
   (\<exists>st. max_tree_view 4 [2, 2, 1, 3] [2, 0, 2, 0] [2, 0, 1, 3] = Some (Inr st) \<and>
         length (nodes (objs st ! MT st)) \<le> length [2, 2, 1, 3 :: nat] \<and>
         distinct (concat (label_idxs (objs st ! MT st))) \<and>
         set (concat (label_idxs (objs st ! MT st))) = {..<length [2, 2, 1, 3 :: nat]})"
proof -
  have "length [2, 2, 1, 3 :: nat] \<le> 4" by simp
  from prune_partitions_flat_tree [OF example_valid example_flat this]
  show ?thesis using example_valid example_flat by blast
qed

text \<open>
  Claim C3, as stated: every edge of the pruned tree goes from a larger value to a strictly
  smaller one. The chain 3 -> 2 -> 1 -> 0 of four pixels of value 1 is valid; \<^verbatim>\<open>prune\<close>
  removes pixel 1 only, and the edge from pixel 3 to pixel 2, both of value 1, stays in
  the pruned graph.
\<close>

theorem prune_chain_keeps_equal_edge:
  "valid_cmt [1, 1, 1, 1] [0, 0, 1, 2] [0, 1, 2, 3] \<and>
   max_tree_view 4 [1, 1, 1, 1] [0, 0, 1, 2] [0, 1, 2, 3] =
     Some (Inr \<lparr>objs =
       [\<lparr>nodes = [(0, \<lparr>val = Some 1, label = None\<rparr>), (1, \<lparr>val = Some 1, label = None\<rparr>),
                  (2, \<lparr>val = Some 1, label = None\<rparr>), (3, \<lparr>val = Some 1, label = None\<rparr>)],
         edges = [(1, 0), (2, 1), (3, 2)]\<rparr>,
        \<lparr>nodes = [(0, \<lparr>val = Some 1, label = Some ''0, 1''\<rparr>),
                  (2, \<lparr>val = Some 1, label = None\<rparr>), (3, \<lparr>val = Some 1, label = None\<rparr>)],
         edges = [(3, 2)]\<rparr>],
       CMT = 0, MT = 1, labels = [(0, ''0, 1'')]\<rparr>)"
  by code_simp

text \<open>
  Claim C3, amended: for every valid canonical max-tree (with recursion depth for its N
  pixels) \<^verbatim>\<open>prune\<close> returns, and every edge (child, parent) of the pruned graph with a
  labelled end (a node \<^verbatim>\<open>prune\<close> visited) has \<open>value[child] > value[parent]\<close>. When the
  levels are flat, every node of the pruned graph carries a label, so this holds for every
  edge.
\<close>

theorem pruned_edges_strict:
  assumes "valid_cmt image_rav P_rav S" and "length image_rav \<le> d"
  shows "\<exists>st. max_tree_view d image_rav P_rav S = Some (Inr st) \<and>
              (\<forall>c p. (c, p) \<in> set (edges (objs st ! MT st)) \<and>
                     (label_of (objs st ! MT st) c \<noteq> None \<or>
                      label_of (objs st ! MT st) p \<noteq> None) \<longrightarrow>
                 (\<exists>vc vp. value_of (objs st ! MT st) c = Some vc \<and>
                          value_of (objs st ! MT st) p = Some vp \<and> vp < vc)) \<and>
              (flat_levels image_rav P_rav \<longrightarrow>
                 (\<forall>n. has_node (objs st ! MT st) n \<longrightarrow> label_of (objs st ! MT st) n \<noteq> None))"
proof -
  note t = valid_tree_ok [OF assms(1)]
  note vd = valid_cmtD [OF assms(1)]
  let ?r = "rem image_rav P_rav S (hd S)"
  let ?v = "vis image_rav P_rav S (hd S)"
  from pruned_objs [OF assms] obtain st where
    st: "max_tree_view d image_rav P_rav S = Some (Inr st)"
    and mt: "objs st ! MT st = tg image_rav P_rav S ?r (lblm image_rav P_rav S ?v)"
    by blast
  have lv: "n \<in> ?v" if "label_of (objs st ! MT st) n \<noteq> None" for n
    using that by (auto simp: mt label_of_pruned [OF t] split: if_splits)
  have 1: "\<exists>vc vp. value_of (objs st ! MT st) c = Some vc \<and>
                   value_of (objs st ! MT st) p = Some vp \<and> vp < vc"
    if e: "(c, p) \<in> set (edges (objs st ! MT st))"
      and l: "label_of (objs st ! MT st) c \<noteq> None \<or> label_of (objs st ! MT st) p \<noteq> None"
    for c p
  proof -
    from e have c: "c \<in> set (tl S)" "p = P_rav ! c" "c \<notin> ?r" "p \<notin> ?r"
      by (auto simp: mt in_edges_tg)
    have pv: "p \<in> ?v"
    proof (cases "label_of (objs st ! MT st) p \<noteq> None")
      case True
      then show ?thesis by (rule lv)
    next
      case False
      then have "c \<in> ?v" using l lv by blast
      then show ?thesis using vis_parent [OF t _ c(1)] c(2) by simp
    qed
    have cS: "c \<in> set S" using c(1) by (rule in_tl_in_set)
    have pS: "p \<in> set S" using t c(1,2) by (simp add: tree_ok_def)
    have "image_rav ! c \<noteq> image_rav ! p" using c pv by (auto simp: rem_def)
    moreover have "image_rav ! p \<le> image_rav ! c" using vd(7) [of c] vd(4) cS c(2) by simp
    ultimately have "image_rav ! p < image_rav ! c" by simp
    then show ?thesis using c(3,4) cS pS by (simp add: mt value_of_tg)
  qed
  have 2: "label_of (objs st ! MT st) n \<noteq> None"
    if f: "flat_levels image_rav P_rav" and n: "has_node (objs st ! MT st) n" for n
  proof -
    have "n \<in> set S" "n \<notin> ?r" using n by (simp_all add: mt has_node_tg)
    then have "n \<in> ?v" using flat_all_pixels [OF assms(1) f] by blast
    then show ?thesis by (simp add: mt label_of_pruned [OF t])
  qed
  show ?thesis using st 1 2 by blast
qed

theorem pruned_edges_strict_witness:
  "valid_cmt [2, 2, 1, 3] [2, 0, 2, 0] [2, 0, 1, 3] \<and>
   (\<exists>st. max_tree_view 4 [2, 2, 1, 3] [2, 0, 2, 0] [2, 0, 1, 3] = Some (Inr st) \<and>
         (\<forall>c p. (c, p) \<in> set (edges (objs st ! MT st)) \<and>
                (label_of (objs st ! MT st) c \<noteq> None \<or>
                 label_of (objs st ! MT st) p \<noteq> None) \<longrightarrow>
            (\<exists>vc vp. value_of (objs st ! MT st) c = Some vc \<and>
                     value_of (objs st ! MT st) p = Some vp \<and> vp < vc)) \<and>
         (flat_levels [2, 2, 1, 3] [2, 0, 2, 0] \<longrightarrow>
            (\<forall>n. has_node (objs st ! MT st) n \<longrightarrow> label_of (objs st ! MT st) n \<noteq> None)))"
proof -
  have "length [2, 2, 1, 3 :: nat] \<le> 4" by simp
  from pruned_edges_strict [OF example_valid this]
  show ?thesis using example_valid by blast
qed

text \<open>
  Claim C7: in a valid canonical max-tree no parent has a larger value than its child, the
  root has the least value of the image, and the same non-strict order holds along every
  edge of the canonical graph and of the pruned graph (whose nodes keep their values).
\<close>

theorem parent_value_not_larger:
  assumes "valid_cmt image_rav P_rav S" and "length image_rav \<le> d"
  shows "(\<forall>p < length image_rav. image_rav ! (P_rav ! p) \<le> image_rav ! p) \<and>
         P_rav ! (hd S) = hd S \<and>
         (\<forall>p < length image_rav. image_rav ! (hd S) \<le> image_rav ! p) \<and>
         (\<exists>st. max_tree_view d image_rav P_rav S = Some (Inr st) \<and>
              (\<forall>c p. (c, p) \<in> set (edges (objs st ! CMT st)) \<longrightarrow>
                 (\<exists>vc vp. value_of (objs st ! CMT st) c = Some vc \<and>
                          value_of (objs st ! CMT st) p = Some vp \<and> vp \<le> vc)) \<and>
              (\<forall>c p. (c, p) \<in> set (edges (objs st ! MT st)) \<longrightarrow>
                 (\<exists>vc vp. value_of (objs st ! MT st) c = Some vc \<and>
                          value_of (objs st ! MT st) p = Some vp \<and> vp \<le> vc)))"
proof -
  note t = valid_tree_ok [OF assms(1)]
  note vd = valid_cmtD [OF assms(1)]
  let ?r = "rem image_rav P_rav S (hd S)"
  let ?v = "vis image_rav P_rav S (hd S)"
  from pruned_objs [OF assms] obtain st where
    st: "max_tree_view d image_rav P_rav S = Some (Inr st)"
    and cmt: "objs st ! CMT st = tg image_rav P_rav S {} (\<lambda>n. None)"
    and mt: "objs st ! MT st = tg image_rav P_rav S ?r (lblm image_rav P_rav S ?v)"
    by blast
  have a: "\<forall>p < length image_rav. image_rav ! (P_rav ! p) \<le> image_rav ! p"
    using vd(7) by blast
  have "hd S \<in> set S" using vd(2) by simp
  then have "hd S < length P_rav" using vd(1,4) by simp
  then have b: "P_rav ! (hd S) = hd S" using roots_iff [OF vd(6)] by simp
  have c: "\<forall>p < length image_rav. image_rav ! (hd S) \<le> image_rav ! p"
    using root_minimal [OF assms(1)] vd(4) by simp
  have e: "\<exists>vc vp. value_of (tg image_rav P_rav S R L) c = Some vc \<and>
                   value_of (tg image_rav P_rav S R L) p = Some vp \<and> vp \<le> vc"
    if "(c, p) \<in> set (edges (tg image_rav P_rav S R L))" for c p R L
  proof -
    from that have c: "c \<in> set (tl S)" "p = P_rav ! c" "c \<notin> R" "p \<notin> R"
      by (auto simp: in_edges_tg)
    have cS: "c \<in> set S" using c(1) by (rule in_tl_in_set)
    have pS: "p \<in> set S" using t c(1,2) by (simp add: tree_ok_def)
    have "image_rav ! p \<le> image_rav ! c" using vd(7) [of c] vd(4) cS c(2) by simp
    then show ?thesis using c(3,4) cS pS by (simp add: value_of_tg)
  qed
  have e1: "\<forall>c p. (c, p) \<in> set (edges (objs st ! CMT st)) \<longrightarrow>
                 (\<exists>vc vp. value_of (objs st ! CMT st) c = Some vc \<and>
                          value_of (objs st ! CMT st) p = Some vp \<and> vp \<le> vc)"
    unfolding cmt using e by blast
  have e2: "\<forall>c p. (c, p) \<in> set (edges (objs st ! MT st)) \<longrightarrow>
                 (\<exists>vc vp. value_of (objs st ! MT st) c = Some vc \<and>
                          value_of (objs st ! MT st) p = Some vp \<and> vp \<le> vc)"
    unfolding mt using e by blast
  show ?thesis using a b c st e1 e2 by blast
qed

theorem parent_value_not_larger_witness:
  "valid_cmt [2, 2, 1, 3] [2, 0, 2, 0] [2, 0, 1, 3] \<and>
   [2, 2, 1, 3] ! ([2, 0, 2, 0] ! 3) \<le> [2, 2, 1, 3 :: nat] ! 3 \<and>
   [2, 2, 1, 3] ! hd [2, 0, 1, 3] \<le> [2, 2, 1, 3 :: nat] ! 3 \<and>
   (\<exists>st. max_tree_view 4 [2, 2, 1, 3] [2, 0, 2, 0] [2, 0, 1, 3] = Some (Inr st))"
proof -
  have "length [2, 2, 1, 3 :: nat] \<le> 4" by simp
  from parent_value_not_larger [OF example_valid this]
  have "\<exists>st. max_tree_view 4 [2, 2, 1, 3] [2, 0, 2, 0] [2, 0, 1, 3] = Some (Inr st)"
    by blast
  then show ?thesis using example_valid by simp
qed

lemma preds_canonical: "predecessors (tg I P S {} L) n = kids P S n"
  by (simp add: preds_tg)

lemma equal_preds_canonical:
  assumes "n \<in> set S"
  shows "filter (\<lambda>c. value_of (tg I P S {} L) c = value_of (tg I P S {} L) n)
           (predecessors (tg I P S {} L) n) = eqk I P S n"
  unfolding preds_canonical eqk_def using assms
  by (intro filter_cong) (auto simp: value_of_tg dest: kid_in_S)

lemma not_in_labels:
  assumes t: "tree_ok P S" and x: "x \<notin> vis I P S (hd S)" "x \<notin> rem I P S (hd S)"
    and l: "label_of (tg I P S (rem I P S (hd S)) (lblm I P S (vis I P S (hd S)))) k = Some lk"
  shows "x \<notin> set (idxs lk)"
proof -
  have k: "k \<in> vis I P S (hd S)" and lk: "lk = lbl I P S k"
    using l by (auto simp: label_of_pruned [OF t] split: if_splits)
  have "x \<noteq> k" using x(1) k by blast
  moreover have "x \<notin> set (eqk I P S k)" using eqk_in_rem [OF k, of x] x(2) by blast
  ultimately show ?thesis by (simp add: lk idxs_lbl)
qed

lemma below_removed:
  assumes t: "tree_ok P S" and p: "P ! x \<in> rem I P S (hd S)" and x: "x \<in> set (tl S)"
  shows "x \<notin> vis I P S (hd S)" "x \<notin> rem I P S (hd S)"
proof -
  have pv: "P ! x \<notin> vis I P S (hd S)" using vis_rem_disjoint [OF _ t] p by blast
  have "x \<noteq> hd S" using hd_notin_tl [of S] t x by (auto simp: tree_ok_def)
  then show "x \<notin> vis I P S (hd S)" using pv by (auto elim: vis.cases)
  show "x \<notin> rem I P S (hd S)" using pv by (simp add: rem_def)
qed

lemma deep_not_absorbed:
  assumes v: "valid_cmt I P S" and x: "x < length I" "P ! x \<noteq> x" "P ! (P ! x) \<noteq> P ! x"
    and e: "I ! x = I ! (P ! x)" "I ! (P ! x) = I ! (P ! (P ! x))"
  shows "x \<notin> vis I P S (hd S)" "x \<notin> rem I P S (hd S)"
proof -
  note vd = valid_cmtD [OF v]
  have "hd S \<in> set S" using vd(2) by simp
  then have "hd S < length P" using vd(1,4) by simp
  then have r: "P ! (hd S) = hd S" using roots_iff [OF vd(6)] by simp
  have "x \<noteq> hd S" using r x(2) by auto
  then show "x \<notin> vis I P S (hd S)" using e(1) by (auto elim: vis.cases)
  have "P ! x \<noteq> hd S" using r x(3) by auto
  then have "P ! x \<notin> vis I P S (hd S)" using e(2) by (auto elim: vis.cases)
  then show "x \<notin> rem I P S (hd S)" by (simp add: rem_def)
qed

text \<open>
  Claim C10: the label \<^verbatim>\<open>prune\<close> gives a node lists the node itself and then its immediate
  predecessors of equal value, in the order of \<^verbatim>\<open>predecessors\<close> (and \<^verbatim>\<open>labels\<close> holds the
  same text). The predecessors of a merged pixel are never visited (no entry in \<^verbatim>\<open>labels\<close>,
  no label) and occur in no label. So a pixel that lies two or more steps deep in a chain
  of equal values occurs in no label.
\<close>

theorem prune_label_immediate_only:
  assumes "valid_cmt image_rav P_rav S" and "length image_rav \<le> d"
  shows "\<exists>st. max_tree_view d image_rav P_rav S = Some (Inr st) \<and>
          (\<forall>n lb. label_of (objs st ! MT st) n = Some lb \<longrightarrow>
             map_of (labels st) n = Some lb \<and>
             idxs lb = n # filter (\<lambda>c. value_of (objs st ! CMT st) c = value_of (objs st ! CMT st) n)
                            (predecessors (objs st ! CMT st) n)) \<and>
          (\<forall>n lb p x. label_of (objs st ! MT st) n = Some lb \<and> p \<in> set (idxs lb) \<and> p \<noteq> n \<and>
                      x \<in> set (predecessors (objs st ! CMT st) p) \<longrightarrow>
             map_of (labels st) x = None \<and> label_of (objs st ! MT st) x = None \<and>
             (\<forall>k lk. label_of (objs st ! MT st) k = Some lk \<longrightarrow> x \<notin> set (idxs lk))) \<and>
          (\<forall>x k lk. x < length image_rav \<and> P_rav ! x \<noteq> x \<and> P_rav ! (P_rav ! x) \<noteq> P_rav ! x \<and>
                    image_rav ! x = image_rav ! (P_rav ! x) \<and>
                    image_rav ! (P_rav ! x) = image_rav ! (P_rav ! (P_rav ! x)) \<and>
                    label_of (objs st ! MT st) k = Some lk \<longrightarrow> x \<notin> set (idxs lk))"
proof -
  note t = valid_tree_ok [OF assms(1)]
  let ?r = "rem image_rav P_rav S (hd S)"
  let ?v = "vis image_rav P_rav S (hd S)"
  from pruned_objs [OF assms] obtain st where
    st: "max_tree_view d image_rav P_rav S = Some (Inr st)"
    and cmt: "objs st ! CMT st = tg image_rav P_rav S {} (\<lambda>n. None)"
    and mt: "objs st ! MT st = tg image_rav P_rav S ?r (lblm image_rav P_rav S ?v)"
    and lab: "map_of (labels st) = lblm image_rav P_rav S ?v"
    by blast
  have hS: "hd S \<in> set S" using t by (simp add: tree_ok_def)
  have lv: "n \<in> ?v \<and> lb = lbl image_rav P_rav S n"
    if "label_of (objs st ! MT st) n = Some lb" for n lb
    using that by (auto simp: mt label_of_pruned [OF t] split: if_splits)
  have a: "map_of (labels st) n = Some lb \<and>
           idxs lb = n # filter (\<lambda>c. value_of (objs st ! CMT st) c = value_of (objs st ! CMT st) n)
                            (predecessors (objs st ! CMT st) n)"
    if l: "label_of (objs st ! MT st) n = Some lb" for n lb
  proof -
    have n: "n \<in> ?v" and lb: "lb = lbl image_rav P_rav S n" using lv [OF l] by auto
    have "n \<in> set S" using n hS vis_in_S by blast
    then show ?thesis using n by (simp add: lab lblm_def lb idxs_lbl cmt equal_preds_canonical)
  qed
  have b: "map_of (labels st) x = None \<and> label_of (objs st ! MT st) x = None \<and>
           (\<forall>k lk. label_of (objs st ! MT st) k = Some lk \<longrightarrow> x \<notin> set (idxs lk))"
    if l: "label_of (objs st ! MT st) n = Some lb" and p: "p \<in> set (idxs lb)" "p \<noteq> n"
      and x: "x \<in> set (predecessors (objs st ! CMT st) p)" for n lb p x
  proof -
    have n: "n \<in> ?v" and lb: "lb = lbl image_rav P_rav S n" using lv [OF l] by auto
    have "p \<in> set (eqk image_rav P_rav S n)" using p by (simp add: lb idxs_lbl)
    then have pr: "p \<in> ?r" using eqk_in_rem [OF n] by blast
    have xk: "x \<in> set (tl S)" "P_rav ! x = p" using x by (simp_all add: cmt preds_canonical in_kids)
    have nv: "x \<notin> ?v" and nr: "x \<notin> ?r" using below_removed [OF t _ xk(1)] pr xk(2) by auto
    have "map_of (labels st) x = None" using nv by (simp add: lab lblm_def)
    moreover have "label_of (objs st ! MT st) x = None"
      using nv by (simp add: mt label_of_pruned [OF t])
    moreover have "\<forall>k lk. label_of (objs st ! MT st) k = Some lk \<longrightarrow> x \<notin> set (idxs lk)"
      using not_in_labels [OF t nv nr] by (simp add: mt)
    ultimately show ?thesis by blast
  qed
  have c: "x \<notin> set (idxs lk)"
    if "x < length image_rav" "P_rav ! x \<noteq> x" "P_rav ! (P_rav ! x) \<noteq> P_rav ! x"
      "image_rav ! x = image_rav ! (P_rav ! x)"
      "image_rav ! (P_rav ! x) = image_rav ! (P_rav ! (P_rav ! x))"
      "label_of (objs st ! MT st) k = Some lk" for x k lk
    using not_in_labels [OF t deep_not_absorbed [OF assms(1) that(1-5)]] that(6)
    by (simp add: mt)
  show ?thesis using st a b c by blast
qed

theorem prune_label_immediate_only_witness:
  "valid_cmt [1, 1, 1, 1] [0, 0, 1, 2] [0, 1, 2, 3] \<and>
   (\<exists>st. max_tree_view 4 [1, 1, 1, 1] [0, 0, 1, 2] [0, 1, 2, 3] = Some (Inr st) \<and>
         map_of (labels st) 2 = None \<and> label_of (objs st ! MT st) 0 = Some ''0, 1'')"
proof -
  have v: "valid_cmt [1, 1, 1, 1] [0, 0, 1, 2] [0, 1, 2, 3]" by code_simp
  have "length [1, 1, 1, 1 :: nat] \<le> 4" by simp
  from prune_label_immediate_only [OF v this] obtain st where
    st: "max_tree_view 4 [1, 1, 1, 1] [0, 0, 1, 2] [0, 1, 2, 3] = Some (Inr st)"
    and a: "\<forall>n lb. label_of (objs st ! MT st) n = Some lb \<longrightarrow>
             map_of (labels st) n = Some lb \<and>
             idxs lb = n # filter (\<lambda>c. value_of (objs st ! CMT st) c = value_of (objs st ! CMT st) n)
                            (predecessors (objs st ! CMT st) n)"
    and b: "\<forall>n lb p x. label_of (objs st ! MT st) n = Some lb \<and> p \<in> set (idxs lb) \<and> p \<noteq> n \<and>
                      x \<in> set (predecessors (objs st ! CMT st) p) \<longrightarrow>
             map_of (labels st) x = None \<and> label_of (objs st ! MT st) x = None \<and>
             (\<forall>k lk. label_of (objs st ! MT st) k = Some lk \<longrightarrow> x \<notin> set (idxs lk))"
    by blast
  have e: "max_tree_view 4 [1, 1, 1, 1] [0, 0, 1, 2] [0, 1, 2, 3] =
     Some (Inr \<lparr>objs =
       [\<lparr>nodes = [(0, \<lparr>val = Some 1, label = None\<rparr>), (1, \<lparr>val = Some 1, label = None\<rparr>),
                  (2, \<lparr>val = Some 1, label = None\<rparr>), (3, \<lparr>val = Some 1, label = None\<rparr>)],
         edges = [(1, 0), (2, 1), (3, 2)]\<rparr>,
        \<lparr>nodes = [(0, \<lparr>val = Some 1, label = Some ''0, 1''\<rparr>),
                  (2, \<lparr>val = Some 1, label = None\<rparr>), (3, \<lparr>val = Some 1, label = None\<rparr>)],
         edges = [(3, 2)]\<rparr>],
       CMT = 0, MT = 1, labels = [(0, ''0, 1'')]\<rparr>)"
    by code_simp
  have l0: "label_of (objs st ! MT st) 0 = Some ''0, 1''"
    using st e by (simp add: label_of_def node_attrs_def)
  have "1 \<in> set (idxs ''0, 1'')" by code_simp
  moreover have "2 \<in> set (predecessors (objs st ! CMT st) 1)"
    using st e by (simp add: predecessors_def)
  ultimately have "map_of (labels st) 2 = None" using b l0 by (metis zero_neq_one)
  then show ?thesis using v st l0 by blast
qed

lemma views_objs:
  assumes v: "valid_cmt I P S" and d: "length I \<le> d"
  obtains w where "derive_views d I P S = Some (Inr w)"
    "objs w ! MT w = tg I P S (rem I P S (hd S)) (lblm I P S (vis I P S (hd S)))"
    "consistent (objs w ! MT w) (map_of (labels_ct w))"
    "post_order (objs w ! MT w) (labels_ct w)"
    "map_of (labels_ct w) (hd S) = Some (total w)"
proof -
  from derive_views_tree [OF v d] obtain lab ct tt where
    m: "derive_views d I P S
            = Some (Inr \<lparr>objs = [tg I P S {} (\<lambda>n. None),
                                 tg I P S (rem I P S (hd S)) (lblm I P S (vis I P S (hd S)))],
                        CMT = 0, MT = Suc 0, labels = lab, labels_ct = ct, total = tt\<rparr>)"
    and c: "consistent (tg I P S (rem I P S (hd S)) (lblm I P S (vis I P S (hd S)))) (map_of ct)"
    and p: "post_order (tg I P S (rem I P S (hd S)) (lblm I P S (vis I P S (hd S)))) ct"
    and r: "map_of ct (hd S) = Some tt"
    by blast
  show ?thesis by (rule that [OF m]) (simp_all add: c p r)
qed




section \<open>The component tree\<close>

text \<open>
  Claim C4, as stated: for every valid canonical max-tree the cumulative set of the root is
  the whole image. On the valid chain 2 -> 1 -> 0 of three pixels of value 1, \<^verbatim>\<open>prune\<close> has
  cut pixel 2 off, and the text \<^verbatim>\<open>accumulate\<close> returns for the root lists the pixels 0 and
  1 only.
\<close>

theorem accumulate_chain_misses_pixel:
  "valid_cmt [1, 1, 1] [0, 0, 1] [0, 1, 2] \<and>
   derive_views 3 [1, 1, 1] [0, 0, 1] [0, 1, 2] =
     Some (Inr \<lparr>objs =
       [\<lparr>nodes = [(0, \<lparr>val = Some 1, label = None\<rparr>), (1, \<lparr>val = Some 1, label = None\<rparr>),
                  (2, \<lparr>val = Some 1, label = None\<rparr>)],
         edges = [(1, 0), (2, 1)]\<rparr>,
        \<lparr>nodes = [(0, \<lparr>val = Some 1, label = Some ''0, 1''\<rparr>),
                  (2, \<lparr>val = Some 1, label = None\<rparr>)],
         edges = []\<rparr>],
       CMT = 0, MT = 1, labels = [(0, ''0, 1'')],
       labels_ct = [(0, ''0, 1'')], total = ''0, 1''\<rparr>) \<and>
   idxs ''0, 1'' = [0, 1]"
  by code_simp

text \<open>
  Claim C4, amended: for every valid canonical max-tree over N pixels with flat levels (no
  pixel that has the value of its parent is itself a parent), and with recursion depth for
  N pixels, the derivation returns, the root has an entry in \<^verbatim>\<open>labels_ct\<close>, which is the
  returned text, and the pixels this text lists are exactly \<open>0..<N\<close>: N pixels.
\<close>

theorem root_cumulative_set_is_image:
  assumes "valid_cmt image_rav P_rav S" and "flat_levels image_rav P_rav"
    and "length image_rav \<le> d"
  shows "\<exists>w. derive_views d image_rav P_rav S = Some (Inr w) \<and>
             map_of (labels_ct w) (hd S) = Some (total w) \<and>
             set (idxs (total w)) = {..<length image_rav} \<and>
             card (set (idxs (total w))) = length image_rav"
proof -
  note t = valid_tree_ok [OF assms(1)]
  from views_objs [OF assms(1,3)] obtain w where
    w: "derive_views d image_rav P_rav S = Some (Inr w)"
    and mt: "objs w ! MT w = tg image_rav P_rav S (rem image_rav P_rav S (hd S))
               (lblm image_rav P_rav S (vis image_rav P_rav S (hd S)))"
    and c: "consistent (objs w ! MT w) (map_of (labels_ct w))"
    and r: "map_of (labels_ct w) (hd S) = Some (total w)"
    by blast
  have "set (idxs (total w)) = vis image_rav P_rav S (hd S) \<union> rem image_rav P_rav S (hd S)"
    using cumulative_pixels [OF t c [unfolded mt] r] .
  then have "set (idxs (total w)) = {..<length image_rav}"
    by (simp only: flat_all_pixels [OF assms(1,2)] valid_cmtD(4) [OF assms(1)])
  then show ?thesis using w r by auto
qed

theorem root_cumulative_set_is_image_witness:
  "valid_cmt [2, 2, 1, 3] [2, 0, 2, 0] [2, 0, 1, 3] \<and> flat_levels [2, 2, 1, 3] [2, 0, 2, 0] \<and>
   (\<exists>w. derive_views 4 [2, 2, 1, 3] [2, 0, 2, 0] [2, 0, 1, 3] = Some (Inr w) \<and>
        map_of (labels_ct w) (hd [2, 0, 1, 3]) = Some (total w) \<and>
        set (idxs (total w)) = {..<length [2, 2, 1, 3 :: nat]} \<and>
        card (set (idxs (total w))) = length [2, 2, 1, 3 :: nat])"
proof -
  have "length [2, 2, 1, 3 :: nat] \<le> 4" by simp
  from root_cumulative_set_is_image [OF example_valid example_flat this]
  show ?thesis using example_valid example_flat by blast
qed








lemma derive_views_split:
  "derive_views d I P S = Some (Inr w) \<Longrightarrow>
     \<exists>st. max_tree_view d I P S = Some (Inr st) \<and> component_tree_view d S st = Some (Inr w)"
  by (auto simp: derive_views_def split: option.splits sum.splits)

lemma max_tree_view_frame:
  assumes "max_tree_view d I P S = Some (Inr st)"
  shows "build I P S = Inr (objs st ! CMT st) \<and> CMT st \<noteq> MT st"
proof -
  from assms obtain G where G: "build I P S = Inr G"
    by (auto simp: max_tree_view_def split: sum.splits)
  from assms obtain s0 rest G' res where
    "st = \<lparr>objs = [G, copy_graph G][Suc 0 := G'], CMT = 0, MT = Suc 0, labels = res\<rparr>"
    by (auto simp: max_tree_view_def G new_graph_def split: list.splits option.splits sum.splits)
  then show ?thesis using G by simp
qed

lemma component_tree_view_frame:
  assumes "component_tree_view d S st = Some (Inr w)"
  shows "objs w = objs st \<and> CMT w = CMT st \<and> MT w = MT st \<and> labels w = labels st \<and>
         accumulate d (objs st ! MT st) (hd S) [] = Some (Inr (total w, labels_ct w))"
  using assms
  by (auto simp: component_tree_view_def split: list.splits option.splits sum.splits)

section \<open>The canonical tree is left as it is; a second run changes nothing\<close>

text \<open>
  Claim C8: the pruned graph is a separate graph object (a copy), and \<^verbatim>\<open>prune\<close> and
  \<^verbatim>\<open>accumulate\<close> work on that object only. After the pruned tree has been derived, and
  again after the component tree has been derived, the graph object \<^verbatim>\<open>CMT\<close> is the graph
  that was built: its nodes, their values and its edges are unchanged.
\<close>

theorem canonical_graph_unchanged:
  assumes "derive_views d image_rav P_rav S = Some (Inr w)"
  shows "build image_rav P_rav S = Inr (objs w ! CMT w) \<and> CMT w \<noteq> MT w \<and>
         (\<exists>st. max_tree_view d image_rav P_rav S = Some (Inr st) \<and>
               component_tree_view d S st = Some (Inr w) \<and>
               build image_rav P_rav S = Inr (objs st ! CMT st) \<and> CMT st \<noteq> MT st)"
proof -
  from derive_views_split [OF assms] obtain st where
    st: "max_tree_view d image_rav P_rav S = Some (Inr st)"
    and w: "component_tree_view d S st = Some (Inr w)"
    by blast
  note f1 = max_tree_view_frame [OF st]
  note f2 = component_tree_view_frame [OF w]
  have "build image_rav P_rav S = Inr (objs w ! CMT w)" using f1 f2 by simp
  moreover have "CMT w \<noteq> MT w" using f1 f2 by simp
  ultimately show ?thesis using st w f1 by blast
qed

theorem canonical_graph_unchanged_witness:
  "\<exists>w. derive_views 4 [2, 2, 1, 3] [2, 0, 2, 0] [2, 0, 1, 3] = Some (Inr w) \<and>
       build [2, 2, 1, 3] [2, 0, 2, 0] [2, 0, 1, 3] = Inr (objs w ! CMT w) \<and> CMT w \<noteq> MT w"
proof -
  have "length [2, 2, 1, 3 :: nat] \<le> 4" by simp
  from views_objs [OF example_valid this] obtain w where
    w: "derive_views 4 [2, 2, 1, 3] [2, 0, 2, 0] [2, 0, 1, 3] = Some (Inr w)" by blast
  from canonical_graph_unchanged [OF w] show ?thesis using w by blast
qed

text \<open>
  Claim C9: \<^verbatim>\<open>accumulate\<close> leaves the graph objects (and \<^verbatim>\<open>labels\<close>) as they are. Run again
  on the same pruned graph with a new dictionary it gives the same text and the same
  dictionary; run again with the dictionary it has filled, it returns the same text and
  leaves every entry, and the order of the keys, as it is; and the text it returns does not
  depend on the dictionary it is given.
\<close>

theorem accumulate_rerun_identical:
  assumes "component_tree_view d S st = Some (Inr w)"
  shows "objs w = objs st \<and> CMT w = CMT st \<and> MT w = MT st \<and> labels w = labels st \<and>
         accumulate d (objs w ! MT w) (hd S) [] = Some (Inr (total w, labels_ct w)) \<and>
         accumulate d (objs w ! MT w) (hd S) (labels_ct w) = Some (Inr (total w, labels_ct w)) \<and>
         (\<exists>res'. accumulate d (objs w ! MT w) (hd S) res = Some (Inr (total w, res')))"
proof -
  note f = component_tree_view_frame [OF assms]
  have a: "accumulate d (objs w ! MT w) (hd S) [] = Some (Inr (total w, labels_ct w))"
    using f by simp
  have b: "accumulate d (objs w ! MT w) (hd S) (labels_ct w) = Some (Inr (total w, labels_ct w))"
    using accumulate_rerun [OF consistent_empty a map_le_refl] .
  have c: "\<exists>res'. accumulate d (objs w ! MT w) (hd S) res = Some (Inr (total w, res'))"
    using accumulate_indep [OF a] .
  show ?thesis using f a b c by blast
qed

theorem accumulate_rerun_identical_witness:
  "\<exists>st w. max_tree_view 4 [2, 2, 1, 3] [2, 0, 2, 0] [2, 0, 1, 3] = Some (Inr st) \<and>
          component_tree_view 4 [2, 0, 1, 3] st = Some (Inr w) \<and> objs w = objs st \<and>
          accumulate 4 (objs w ! MT w) (hd [2, 0, 1, 3]) (labels_ct w)
            = Some (Inr (total w, labels_ct w))"
proof -
  have "length [2, 2, 1, 3 :: nat] \<le> 4" by simp
  from views_objs [OF example_valid this] obtain w where
    "derive_views 4 [2, 2, 1, 3] [2, 0, 2, 0] [2, 0, 1, 3] = Some (Inr w)" by blast
  from derive_views_split [OF this] obtain st where
    st: "max_tree_view 4 [2, 2, 1, 3] [2, 0, 2, 0] [2, 0, 1, 3] = Some (Inr st)"
    and w: "component_tree_view 4 [2, 0, 1, 3] st = Some (Inr w)"
    by blast
  from accumulate_rerun_identical [OF w] show ?thesis using st w by blast
qed

end
